theory Spec2Isabelle
  imports Main
begin

section \<open>Go strings as byte lists\<close>

text \<open>
  A Go \<^verbatim>\<open>string\<close> is a sequence of bytes; it is modelled as a \<^typ>\<open>string\<close>
  (a list of 8-bit characters). The functions of package \<^verbatim>\<open>strings\<close> that the
  repository calls are written out below with the standard library's behaviour.
\<close>

abbreviation NL :: char where
  "NL \<equiv> CHR 0x0A"

abbreviation BSL :: char where
  "BSL \<equiv> CHR 0x5C"

text \<open>\<^verbatim>\<open>strings.HasPrefix\<close>: \<^verbatim>\<open>len(s) >= len(prefix) && s[:len(prefix)] == prefix\<close>.\<close>

definition HasPrefix :: "string \<Rightarrow> string \<Rightarrow> bool" where
  "HasPrefix s p = (length p \<le> length s \<and> take (length p) s = p)"

text \<open>\<^verbatim>\<open>strings.HasSuffix\<close>: \<^verbatim>\<open>len(s) >= len(suffix) && s[len(s)-len(suffix):] == suffix\<close>.\<close>

definition HasSuffix :: "string \<Rightarrow> string \<Rightarrow> bool" where
  "HasSuffix s p = (length p \<le> length s \<and> drop (length s - length p) s = p)"

text \<open>\<^verbatim>\<open>strings.TrimSuffix\<close> removes the suffix once, when it is there.\<close>

definition TrimSuffix :: "string \<Rightarrow> string \<Rightarrow> string" where
  "TrimSuffix s p = (if HasSuffix s p then take (length s - length p) s else s)"

text \<open>\<^verbatim>\<open>strings.Contains\<close>: the substring occurs at some offset.\<close>

fun Contains :: "string \<Rightarrow> string \<Rightarrow> bool" where
  "Contains [] sub = (sub = [])"
| "Contains (c # cs) sub = (HasPrefix (c # cs) sub \<or> Contains cs sub)"

text \<open>\<^verbatim>\<open>strings.Count\<close> for a one-byte separator: the number of occurrences of the byte.\<close>

definition Count :: "string \<Rightarrow> char \<Rightarrow> nat" where
  "Count s c = length (filter (\<lambda>x. x = c) s)"

text \<open>
  \<^verbatim>\<open>strings.Split(s, sep)\<close> for a one-byte separator. The result always has at least
  one element: splitting the empty string gives one empty string. \<open>cur\<close> holds the
  bytes read since the last separator.
\<close>

fun split_from :: "char \<Rightarrow> string \<Rightarrow> string \<Rightarrow> string list" where
  "split_from c cur [] = [cur]"
| "split_from c cur (x # xs) =
     (if x = c then cur # split_from c [] xs else split_from c (cur @ [x]) xs)"

definition Split :: "string \<Rightarrow> char \<Rightarrow> string list" where
  "Split s c = split_from c [] s"

text \<open>\<^verbatim>\<open>strings.SplitN(s, sep, 2)\<close> for a one-byte separator: cut at the first occurrence.\<close>

definition SplitN2 :: "string \<Rightarrow> char \<Rightarrow> string list" where
  "SplitN2 s c =
     (if c \<in> set s then [takeWhile (\<lambda>x. x \<noteq> c) s, tl (dropWhile (\<lambda>x. x \<noteq> c) s)]
      else [s])"

text \<open>\<^verbatim>\<open>strings.Join(elems, sep)\<close> for a one-byte separator.\<close>

fun Join :: "string list \<Rightarrow> char \<Rightarrow> string" where
  "Join [] c = []"
| "Join [l] c = l"
| "Join (l # l' # ls) c = l @ [c] @ Join (l' # ls) c"

subsection \<open>White space\<close>

text \<open>
  \<^verbatim>\<open>strings.TrimSpace\<close> and \<^verbatim>\<open>strings.Fields\<close> decode the string as UTF-8 and test each
  rune with \<^verbatim>\<open>unicode.IsSpace\<close>. The runes for which that holds are U+0009..U+000D, U+0020,
  U+0085, U+00A0, U+1680, U+2000..U+200A, U+2028, U+2029, U+202F, U+205F and U+3000.
  \<open>space_runes\<close> lists their UTF-8 encodings. Each encoding starts with a byte that is
  not a UTF-8 continuation byte, and all its other bytes are continuation bytes, so the
  decoder (which consumes one whole rune, or one byte of an invalid sequence, at a time)
  reads a white-space rune at an offset exactly when one of these encodings starts
  there, and \<^verbatim>\<open>utf8.DecodeLastRuneInString\<close> reads one exactly when the string ends
  with one of them.
\<close>

definition space_runes :: "string list" where
  "space_runes =
    [[CHR 0x09], [CHR 0x0A], [CHR 0x0B], [CHR 0x0C], [CHR 0x0D], [CHR 0x20],
     [CHR 0xC2, CHR 0x85], [CHR 0xC2, CHR 0xA0],
     [CHR 0xE1, CHR 0x9A, CHR 0x80],
     [CHR 0xE2, CHR 0x80, CHR 0x80], [CHR 0xE2, CHR 0x80, CHR 0x81],
     [CHR 0xE2, CHR 0x80, CHR 0x82], [CHR 0xE2, CHR 0x80, CHR 0x83],
     [CHR 0xE2, CHR 0x80, CHR 0x84], [CHR 0xE2, CHR 0x80, CHR 0x85],
     [CHR 0xE2, CHR 0x80, CHR 0x86], [CHR 0xE2, CHR 0x80, CHR 0x87],
     [CHR 0xE2, CHR 0x80, CHR 0x88], [CHR 0xE2, CHR 0x80, CHR 0x89],
     [CHR 0xE2, CHR 0x80, CHR 0x8A],
     [CHR 0xE2, CHR 0x80, CHR 0xA8], [CHR 0xE2, CHR 0x80, CHR 0xA9],
     [CHR 0xE2, CHR 0x80, CHR 0xAF], [CHR 0xE2, CHR 0x81, CHR 0x9F],
     [CHR 0xE3, CHR 0x80, CHR 0x80]]"

text \<open>The width in bytes of the white-space rune the string starts with; 0 when there is none.\<close>

definition lead_space :: "string \<Rightarrow> nat" where
  "lead_space s = (case find (HasPrefix s) space_runes of None \<Rightarrow> 0 | Some e \<Rightarrow> length e)"

text \<open>The width in bytes of the white-space rune the string ends with; 0 when there is none.\<close>

definition trail_space :: "string \<Rightarrow> nat" where
  "trail_space s = (case find (HasSuffix s) space_runes of None \<Rightarrow> 0 | Some e \<Rightarrow> length e)"

text \<open>\<^verbatim>\<open>strings.TrimLeftFunc(s, unicode.IsSpace)\<close>.\<close>

function trim_left :: "string \<Rightarrow> string" where
  "trim_left s = (if 0 < lead_space s \<and> s \<noteq> [] then trim_left (drop (lead_space s) s) else s)"
  by pat_completeness auto
termination
  by (relation "measure length") auto

text \<open>\<^verbatim>\<open>strings.TrimRightFunc(s, unicode.IsSpace)\<close>.\<close>

function trim_right :: "string \<Rightarrow> string" where
  "trim_right s =
     (if 0 < trail_space s \<and> s \<noteq> [] then trim_right (take (length s - trail_space s) s) else s)"
  by pat_completeness auto
termination
  by (relation "measure length") auto

text \<open>\<^verbatim>\<open>strings.TrimSpace\<close>: leading white space is removed, then trailing white space.\<close>

definition TrimSpace :: "string \<Rightarrow> string" where
  "TrimSpace s = trim_right (trim_left s)"

text \<open>
  \<^verbatim>\<open>strings.Fields\<close>: the maximal runs of non-white-space runes, in order. \<open>cur\<close> is
  the field being read (\<open>None\<close> between fields), as \<^verbatim>\<open>start\<close> is in \<^verbatim>\<open>FieldsFunc\<close>.
\<close>

function fields_from :: "string option \<Rightarrow> string \<Rightarrow> string list" where
  "fields_from cur [] = (case cur of None \<Rightarrow> [] | Some f \<Rightarrow> [f])"
| "fields_from cur (c # cs) =
     (if 0 < lead_space (c # cs) then
        (case cur of
           None \<Rightarrow> fields_from None (drop (lead_space (c # cs)) (c # cs))
         | Some f \<Rightarrow> f # fields_from None (drop (lead_space (c # cs)) (c # cs)))
      else fields_from (Some ((case cur of None \<Rightarrow> [] | Some f \<Rightarrow> f) @ [c])) cs)"
  by pat_completeness auto
termination
  by (relation "measure (\<lambda>(cur, s). length s)") auto

definition Fields :: "string \<Rightarrow> string list" where
  "Fields s = fields_from None s"

section \<open>Rule model (pkg/models/coredns.go)\<close>

record ForwardRule =
  Namespace :: string
  ServiceName :: string
  TargetIP :: string
  IsFullFQDN :: bool

definition GetFullName :: "ForwardRule \<Rightarrow> string" where
  "GetFullName r =
     (if ServiceName r \<noteq> [] then ServiceName r @ ''.'' @ Namespace r else Namespace r)"

text \<open>
  \<^verbatim>\<open>ToCorefile\<close>: the three \<^verbatim>\<open>fmt.Sprintf\<close> calls, each \<^verbatim>\<open>%s\<close> replaced by its
  argument; the raw string literals hold the line feeds.
\<close>

definition ToCorefile :: "ForwardRule \<Rightarrow> string" where
  "ToCorefile r =
     (if IsFullFQDN r then
        (let fqdn = GetFullName r @ ''.svc.cluster.local''
         in fqdn @ '':53 {'' @ [NL] @ ''    forward . '' @ TargetIP r @ [NL] @ ''}'')
      else
        (let fullName = GetFullName r;
             fullFQDN = fullName @ ''.svc.cluster.local.''
         in if ServiceName r \<noteq> [] then
              fullName @ '':53 {'' @ [NL] @
              ''    rewrite name exact '' @ fullName @ '' '' @ fullFQDN @ '' answer auto'' @ [NL] @
              ''    forward . '' @ TargetIP r @ [NL] @ ''}''
            else
              Namespace r @ '':53 {'' @ [NL] @
              ''    rewrite name regex (.*)'' @ [BSL] @ ''.'' @ Namespace r @ '' '' @ Namespace r @
                ''.svc.cluster.local. answer auto'' @ [NL] @
              ''    forward . '' @ TargetIP r @ [NL] @ ''}''))"

text \<open>\<^verbatim>\<open>ParseNameInput\<close> returns (serviceName, namespace, isFullFQDN).\<close>

definition ParseNameInput :: "string \<Rightarrow> string \<times> string \<times> bool" where
  "ParseNameInput input0 =
     (let input1 = TrimSpace input0;
          isFullFQDN = HasSuffix input1 ''.svc.cluster.local'';
          input2 = (if isFullFQDN then TrimSuffix input1 ''.svc.cluster.local'' else input1);
          parts = SplitN2 input2 (CHR ''.'')
      in if length parts = 2 then (parts ! 0, parts ! 1, isFullFQDN)
         else ([], parts ! 0, isFullFQDN))"

section \<open>Rule codec (CoreDNSHandler in package k8s)\<close>

subsection \<open>parseForwardRules\<close>

text \<open>
  The inner loop of \<^verbatim>\<open>parseForwardRules\<close>: \<^verbatim>\<open>for j := i + 1; j < len(lines) && j < i+10; j++\<close>.
  The argument is the window \<^verbatim>\<open>lines[i+1 : min(len(lines), i+10)]\<close>; the result is the
  list of rules the loop appends (none or one).
\<close>

fun scan_forward :: "string \<Rightarrow> string \<Rightarrow> bool \<Rightarrow> string list \<Rightarrow> ForwardRule list" where
  "scan_forward namespace serviceName isFullFQDN [] = []"
| "scan_forward namespace serviceName isFullFQDN (l # ls) =
     (let forwardLine = TrimSpace l
      in if HasPrefix forwardLine ''forward .'' then
           (let forwardParts = Fields forwardLine
            in if 3 \<le> length forwardParts then
                 [\<lparr>Namespace = namespace, ServiceName = serviceName,
                   TargetIP = forwardParts ! 2, IsFullFQDN = isFullFQDN\<rparr>]
               else [])
         else if Contains forwardLine ''}'' then []
         else scan_forward namespace serviceName isFullFQDN ls)"

text \<open>The domain part of a trimmed candidate header: the three \<^verbatim>\<open>TrimSuffix\<close> calls and the \<^verbatim>\<open>TrimSpace\<close>.\<close>

definition domain_part :: "string \<Rightarrow> string" where
  "domain_part trimmed =
     TrimSpace (TrimSuffix (TrimSuffix (TrimSuffix trimmed ''{'') '' '') '':53'')"

text \<open>
  The branch of \<^verbatim>\<open>parseForwardRules\<close> that reads (serviceName, namespace, isFullFQDN)
  off the domain part: the FQDN format and the short format.
\<close>

definition split_domain :: "string \<Rightarrow> string \<times> string \<times> bool" where
  "split_domain domainPart =
     (if HasSuffix domainPart ''.svc.cluster.local'' then
        (let name = TrimSuffix domainPart ''.svc.cluster.local'';
             (serviceName, namespace, _) = ParseNameInput name
         in (serviceName, namespace, True))
      else
        (let parts = SplitN2 domainPart (CHR ''.'')
         in if length parts = 2 then (parts ! 0, parts ! 1, False)
            else ([], parts ! 0, False)))"

text \<open>
  One iteration of the outer loop, for the line \<^verbatim>\<open>lines[i]\<close> and the lines after it
  \<^verbatim>\<open>lines[i+1:]\<close>: the rules this iteration appends. Each \<^verbatim>\<open>continue\<close> is an empty result.
\<close>

definition parse_line :: "string \<Rightarrow> string list \<Rightarrow> ForwardRule list" where
  "parse_line line rest =
     (let trimmed = TrimSpace line
      in if \<not> Contains trimmed '':53'' then []
         else if \<not> HasSuffix trimmed ''{'' \<and> \<not> HasSuffix trimmed ''{ '' then []
         else
           (let domainPart = domain_part trimmed
            in if domainPart = [] \<or> domainPart = ''.'' \<or> domainPart = ''cluster.local'' then []
               else
                 (let (serviceName, namespace, isFullFQDN) = split_domain domainPart
                  in if namespace = [] then []
                     else scan_forward namespace serviceName isFullFQDN (take 9 rest))))"

text \<open>The outer loop \<^verbatim>\<open>for i, line := range lines\<close>, appending in order of appearance.\<close>

fun parse_lines :: "string list \<Rightarrow> ForwardRule list" where
  "parse_lines [] = []"
| "parse_lines (line # rest) = parse_line line rest @ parse_lines rest"

definition parseForwardRules :: "string \<Rightarrow> ForwardRule list" where
  "parseForwardRules corefile = parse_lines (Split corefile NL)"

subsection \<open>The text transformation of DeleteForwardRule\<close>

text \<open>The header prefix \<^verbatim>\<open>ruleBlock\<close> that \<^verbatim>\<open>DeleteForwardRule\<close> computes from its arguments.\<close>

definition ruleBlock :: "string \<Rightarrow> bool \<Rightarrow> string" where
  "ruleBlock name isFullFQDN =
     (let (serviceName, namespace, _) = ParseNameInput name;
          fullName = (if serviceName \<noteq> [] then serviceName @ ''.'' @ namespace else namespace)
      in if isFullFQDN then fullName @ ''.svc.cluster.local:53'' else fullName @ '':53'')"

text \<open>
  The loop over the lines, with the loop variables \<^verbatim>\<open>skipBlock\<close> and \<^verbatim>\<open>braceCount\<close>
  as arguments; the result is \<^verbatim>\<open>newLines\<close>. \<^verbatim>\<open>braceCount\<close> is a Go \<^verbatim>\<open>int\<close>
  (64 bits); it is bounded by the length of the text, so it is an \<^typ>\<open>int\<close> here.
\<close>

fun delete_loop :: "string \<Rightarrow> bool \<Rightarrow> int \<Rightarrow> string list \<Rightarrow> string list" where
  "delete_loop rb skipBlock braceCount [] = []"
| "delete_loop rb skipBlock braceCount (line # lines) =
     (let trimmed = TrimSpace line;
          skipBlock1 = (if HasPrefix trimmed rb then True else skipBlock);
          braceCount1 = (if HasPrefix trimmed rb then 0 else braceCount)
      in if skipBlock1 then
           (let braceCount2 = braceCount1 + int (Count line (CHR ''{'')) - int (Count line (CHR ''}''))
            in if braceCount2 \<le> 0 \<and> Contains line ''}''
               then delete_loop rb False braceCount2 lines
               else delete_loop rb True braceCount2 lines)
         else line # delete_loop rb False braceCount1 lines)"

definition delete_text :: "string \<Rightarrow> bool \<Rightarrow> string \<Rightarrow> string" where
  "delete_text name isFullFQDN corefile =
     Join (delete_loop (ruleBlock name isFullFQDN) False 0 (Split corefile NL)) NL"

section \<open>Config applier: the calls to the cluster API\<close>

text \<open>
  The errors the handler and the manager return, one constructor for each wrapped
  failure (the three failures inside \<^verbatim>\<open>createClient\<close> are one constructor), and the
  run-time panic of a write to a nil map.
\<close>

datatype error =
    CreateClientFailed
  | GetConfigMapFailed
  | GetServiceFailed
  | UpdateConfigMapFailed
  | RuleAlreadyExists string
  | ConnectFailed
  | NilMapPanic

text \<open>
  What the handler sees of one cluster: the \<^verbatim>\<open>Data\<close> map of the \<^verbatim>\<open>coredns\<close> ConfigMap
  (\<open>None\<close> is a nil map), and the outcomes of the API calls still to come, in the order
  the calls are made (\<open>True\<close>: the call succeeds; an exhausted list: every call succeeds).
  \<^verbatim>\<open>GetClient\<close> counts as one such call.
\<close>

record kube =
  cm_data :: "(string \<rightharpoonup> string) option"
  outcomes :: "bool list"

definition api_call :: "kube \<Rightarrow> bool \<times> kube" where
  "api_call k = (case outcomes k of [] \<Rightarrow> (True, k) | b # bs \<Rightarrow> (b, k\<lparr>outcomes := bs\<rparr>))"

text \<open>\<^verbatim>\<open>configMap.Data[CorefileName]\<close>: a missing key, or a nil map, reads as the empty string.\<close>

definition corefile_of :: "kube \<Rightarrow> string" where
  "corefile_of k =
     (case cm_data k of None \<Rightarrow> []
      | Some m \<Rightarrow> (case m ''Corefile'' of None \<Rightarrow> [] | Some t \<Rightarrow> t))"

text \<open>
  Of \<^verbatim>\<open>CoreDNSInfo\<close>, the text and the parsed rules; the fields that hold the API objects
  and the service address (\<^verbatim>\<open>ConfigMap\<close>, \<^verbatim>\<open>Service\<close>, \<^verbatim>\<open>ServiceIP\<close>) play no part in
  the operations below.
\<close>

record CoreDNSInfo =
  Corefile :: string
  ForwardRules :: "ForwardRule list"

definition GetCoreDNSInfo :: "kube \<Rightarrow> (error + CoreDNSInfo) \<times> kube" where
  "GetCoreDNSInfo k0 =
     (let (ok1, k1) = api_call k0 in
      if \<not> ok1 then (Inl CreateClientFailed, k1) else
      let (ok2, k2) = api_call k1 in
      if \<not> ok2 then (Inl GetConfigMapFailed, k2) else
      let (ok3, k3) = api_call k2 in
      if \<not> ok3 then (Inl GetServiceFailed, k3) else
      (Inr \<lparr>Corefile = corefile_of k3, ForwardRules = parseForwardRules (corefile_of k3)\<rparr>, k3))"

definition UpdateCorefile :: "kube \<Rightarrow> string \<Rightarrow> error option \<times> kube" where
  "UpdateCorefile k0 corefile =
     (let (ok1, k1) = api_call k0 in
      if \<not> ok1 then (Some CreateClientFailed, k1) else
      let (ok2, k2) = api_call k1 in
      if \<not> ok2 then (Some GetConfigMapFailed, k2) else
      (case cm_data k2 of
         None \<Rightarrow> (Some NilMapPanic, k2)
       | Some m \<Rightarrow>
           (let (ok3, k3) = api_call k2 in
            if \<not> ok3 then (Some UpdateConfigMapFailed, k3)
            else (None, k3\<lparr>cm_data := Some (m(''Corefile'' \<mapsto> corefile))\<rparr>))))"

text \<open>The duplicate check of \<^verbatim>\<open>AddForwardRule\<close>: the loop returns at the first rule with the same full name.\<close>

fun find_duplicate :: "ForwardRule list \<Rightarrow> ForwardRule \<Rightarrow> error option" where
  "find_duplicate [] rule = None"
| "find_duplicate (r # rs) rule =
     (if GetFullName r = GetFullName rule then Some (RuleAlreadyExists (GetFullName rule))
      else find_duplicate rs rule)"

definition AddForwardRule :: "kube \<Rightarrow> ForwardRule \<Rightarrow> error option \<times> kube" where
  "AddForwardRule k0 rule =
     (case GetCoreDNSInfo k0 of
        (Inl err, k1) \<Rightarrow> (Some err, k1)
      | (Inr info, k1) \<Rightarrow>
          (case find_duplicate (ForwardRules info) rule of
             Some err \<Rightarrow> (Some err, k1)
           | None \<Rightarrow> UpdateCorefile k1 (Corefile info @ [NL] @ ToCorefile rule @ [NL])))"

definition DeleteForwardRule :: "kube \<Rightarrow> string \<Rightarrow> bool \<Rightarrow> error option \<times> kube" where
  "DeleteForwardRule k0 name isFullFQDN =
     (case GetCoreDNSInfo k0 of
        (Inl err, k1) \<Rightarrow> (Some err, k1)
      | (Inr info, k1) \<Rightarrow> UpdateCorefile k1 (delete_text name isFullFQDN (Corefile info)))"

section \<open>Connection cache (Manager in package k8s)\<close>

text \<open>
  A \<^verbatim>\<open>*kubernetes.Clientset\<close> is a pointer; it is modelled by the number of the
  allocation that made it, so two handles are the same instance exactly when the numbers
  are equal. \<open>next_handle\<close> is the number the next allocation gets. The locks are not
  modelled: each operation is taken as one atomic step.
\<close>

type_synonym handle = nat

record Manager =
  clients :: "string \<rightharpoonup> handle"
  next_handle :: nat

text \<open>A cluster, without its creation time.\<close>

record Cluster =
  ID :: string
  Name :: string
  Kubeconfig :: string

text \<open>
  \<^verbatim>\<open>createClient\<close>: \<open>usable\<close> is the set of credentials for which the three
  library calls that decode the kubeconfig and build the client succeed (base64
  decoding, \<^verbatim>\<open>RESTConfigFromKubeConfig\<close>, \<^verbatim>\<open>NewForConfig\<close>); they depend on the
  credential only.
\<close>

definition createClient :: "string set \<Rightarrow> Manager \<Rightarrow> Cluster \<Rightarrow> (error + handle) \<times> Manager" where
  "createClient usable m cluster =
     (if Kubeconfig cluster \<in> usable then (Inr (next_handle m), m\<lparr>next_handle := Suc (next_handle m)\<rparr>)
      else (Inl CreateClientFailed, m))"

definition GetClient :: "string set \<Rightarrow> Manager \<Rightarrow> Cluster \<Rightarrow> (error + handle) \<times> Manager" where
  "GetClient usable m cluster =
     (case clients m (ID cluster) of
        Some client \<Rightarrow> (Inr client, m)
      | None \<Rightarrow>
          (case createClient usable m cluster of
             (Inl err, m1) \<Rightarrow> (Inl err, m1)
           | (Inr client, m1) \<Rightarrow> (Inr client, m1\<lparr>clients := (clients m1)(ID cluster \<mapsto> client)\<rparr>)))"

definition RemoveClient :: "Manager \<Rightarrow> string \<Rightarrow> Manager" where
  "RemoveClient m clusterID = m\<lparr>clients := (clients m)(clusterID := None)\<rparr>"

text \<open>
  \<^verbatim>\<open>TestConnection\<close>: \<open>alive\<close> is the set of handles for which the liveness call
  \<^verbatim>\<open>client.Discovery().ServerVersion()\<close> succeeds at the time of this call.
\<close>

definition TestConnection ::
    "string set \<Rightarrow> handle set \<Rightarrow> Manager \<Rightarrow> Cluster \<Rightarrow> error option \<times> Manager" where
  "TestConnection usable alive m cluster =
     (case GetClient usable m cluster of
        (Inl err, m1) \<Rightarrow> (Some err, m1)
      | (Inr client, m1) \<Rightarrow>
          (if client \<notin> alive then (Some ConnectFailed, RemoveClient m1 (ID cluster))
           else (None, m1)))"

section \<open>Notions of the specification\<close>

text \<open>
  The block grammar of the specification: a header line, the body lines indented by
  four spaces, and a closing brace, one per line.
\<close>

definition block_text :: "string \<Rightarrow> string list \<Rightarrow> string" where
  "block_text header body = Join (header # map (\<lambda>l. ''    '' @ l) body @ [''}'']) NL"

text \<open>A string holds white space when the encoding of a white-space rune starts at some offset.\<close>

fun has_space :: "string \<Rightarrow> bool" where
  "has_space [] = False"
| "has_space (c # cs) = (0 < lead_space (c # cs) \<or> has_space cs)"

text \<open>A line is a header for the prefix \<open>rb\<close> when its trimmed form starts with \<open>rb\<close>.\<close>

definition matches :: "string \<Rightarrow> string \<Rightarrow> bool" where
  "matches rb line = HasPrefix (TrimSpace line) rb"

text \<open>
  A run of lines is closed by its last line, starting from brace depth \<open>d\<close>: the last line
  is the first one that holds a closing brace and brings the depth (opening minus
  closing braces so far) to zero or below.
\<close>

fun closes_at_end :: "int \<Rightarrow> string list \<Rightarrow> bool" where
  "closes_at_end d [] = False"
| "closes_at_end d (l # ls) =
     (let d' = d + int (Count l (CHR ''{'')) - int (Count l (CHR ''}''))
      in if d' \<le> 0 \<and> CHR ''}'' \<in> set l then ls = [] else closes_at_end d' ls)"

text \<open>
  A block for the prefix \<open>rb\<close>: its first line is a header for \<open>rb\<close>, no later line is,
  and it runs through its balancing closing brace.
\<close>

definition is_block :: "string \<Rightarrow> string list \<Rightarrow> bool" where
  "is_block rb blk =
     (case blk of [] \<Rightarrow> False
      | h # body \<Rightarrow> matches rb h \<and> list_all (\<lambda>l. \<not> matches rb l) body \<and> closes_at_end 0 blk)"

text \<open>
  The rules that the iteration for line \<open>i\<close> of the outer loop of \<^verbatim>\<open>parseForwardRules\<close>
  appends: what the header on line \<open>i\<close> contributes to the result.
\<close>

definition rules_at :: "string \<Rightarrow> nat \<Rightarrow> ForwardRule list" where
  "rules_at corefile i =
     (let lines = Split corefile NL in parse_line (lines ! i) (drop (Suc i) lines))"

text \<open>The connection cache never holds a handle that is still to be allocated.\<close>

definition cache_ok :: "Manager \<Rightarrow> bool" where
  "cache_ok m = (\<forall>h \<in> ran (clients m). h < next_handle m)"

section \<open>Facts about the string functions\<close>

lemma HasPrefix_Nil [simp]: "HasPrefix s []"
  by (simp add: HasPrefix_def)

lemma HasPrefix_Nil_left [simp]: "HasPrefix [] p = (p = [])"
  by (auto simp add: HasPrefix_def)

lemma HasPrefix_Cons [simp]: "HasPrefix (c # cs) (p # ps) = (c = p \<and> HasPrefix cs ps)"
  by (auto simp add: HasPrefix_def)

lemma HasPrefix_append [simp]: "HasPrefix (p @ s) p"
  by (simp add: HasPrefix_def)

lemma HasPrefix_iff: "HasPrefix s p = (\<exists>t. s = p @ t)"
  by (auto simp add: HasPrefix_def) (metis append_take_drop_id)

lemma HasSuffix_iff: "HasSuffix s p = (\<exists>t. s = t @ p)"
proof
  assume "HasSuffix s p"
  then have "s = take (length s - length p) s @ p"
    by (metis HasSuffix_def append_take_drop_id)
  then show "\<exists>t. s = t @ p" ..
next
  assume "\<exists>t. s = t @ p"
  then show "HasSuffix s p" by (auto simp add: HasSuffix_def)
qed

lemma HasSuffix_append [simp]: "HasSuffix (t @ p) p"
  by (simp add: HasSuffix_def)

lemma TrimSuffix_append [simp]: "TrimSuffix (t @ p) p = t"
  by (simp add: TrimSuffix_def)

lemma Contains_self [simp]: "Contains (sub @ b) sub"
proof (cases "sub @ b")
  case Nil
  then show ?thesis by simp
next
  case (Cons x xs)
  have "HasPrefix (sub @ b) sub" by simp
  then have "HasPrefix (x # xs) sub" using Cons by simp
  then have "Contains (x # xs) sub" by simp
  then show ?thesis using Cons by simp
qed

lemma Contains_appendI: "Contains (a @ sub @ b) sub"
  by (induction a) auto

lemma Contains_single [simp]: "Contains s [c] = (c \<in> set s)"
  by (induction s) auto

lemma SplitN2_cases:
  "SplitN2 s c = parts \<Longrightarrow>
     (c \<in> set s \<and> (\<exists>a b. parts = [a, b] \<and> s = a @ [c] @ b \<and> c \<notin> set a)) \<or>
     (c \<notin> set s \<and> parts = [s])"
proof (cases "c \<in> set s")
  case True
  assume p: "SplitN2 s c = parts"
  let ?a = "takeWhile (\<lambda>x. x \<noteq> c) s" and ?d = "dropWhile (\<lambda>x. x \<noteq> c) s"
  have "?d \<noteq> []" using True by (simp add: dropWhile_eq_Nil_conv)
  moreover have "hd ?d = c" using True hd_dropWhile[of "\<lambda>x. x \<noteq> c" s] \<open>?d \<noteq> []\<close> by auto
  ultimately have "?d = c # tl ?d" by (metis list.collapse)
  then have "s = ?a @ [c] @ tl ?d" by (metis append_Cons append_Nil takeWhile_dropWhile_id)
  moreover have "c \<notin> set ?a" by (auto dest: set_takeWhileD)
  moreover have "parts = [?a, tl ?d]" using p True by (simp add: SplitN2_def)
  ultimately show ?thesis using True by blast
next
  case False
  assume "SplitN2 s c = parts"
  then show ?thesis using False by (simp add: SplitN2_def)
qed

section \<open>Rule model: rendering and name parsing\<close>

lemma ToCorefile_block:
  "ToCorefile r =
     (if IsFullFQDN r then
        block_text (GetFullName r @ ''.svc.cluster.local:53 {'') [''forward . '' @ TargetIP r]
      else if ServiceName r \<noteq> [] then
        block_text (GetFullName r @ '':53 {'')
          [''rewrite name exact '' @ GetFullName r @ '' '' @ GetFullName r @ ''.svc.cluster.local. answer auto'',
           ''forward . '' @ TargetIP r]
      else
        block_text (Namespace r @ '':53 {'')
          [''rewrite name regex (.*)'' @ [BSL] @ ''.'' @ Namespace r @ '' '' @ Namespace r @ ''.svc.cluster.local. answer auto'',
           ''forward . '' @ TargetIP r])"
  by (simp add: ToCorefile_def block_text_def Let_def)

text \<open>
  Claim C8. \<^verbatim>\<open>ToCorefile\<close> returns exactly one of three literal blocks, chosen by the
  shape of the rule: for a FQDN rule the header \<open><fullName>.svc.cluster.local:53 {\<close> and the
  single body line \<open>forward . <targetIP>\<close>; for a short rule with a service name the
  header \<open><fullName>:53 {\<close> and the body lines
  \<open>rewrite name exact <fullName> <fullName>.svc.cluster.local. answer auto\<close> and
  \<open>forward . <targetIP>\<close>; otherwise the header \<open><namespace>:53 {\<close> and the body lines
  \<open>rewrite name regex (.*)\.<namespace> <namespace>.svc.cluster.local. answer auto\<close> and
  \<open>forward . <targetIP>\<close>. In each case the text is the header, the body lines indented by
  four spaces and a closing \<open>}\<close>, separated by line feeds (\<open>block_text\<close>).
\<close>

theorem ToCorefile_exact:
  "ToCorefile r =
     (if IsFullFQDN r then
        block_text (GetFullName r @ ''.svc.cluster.local:53 {'') [''forward . '' @ TargetIP r]
      else if ServiceName r \<noteq> [] then
        block_text (GetFullName r @ '':53 {'')
          [''rewrite name exact '' @ GetFullName r @ '' '' @ GetFullName r @ ''.svc.cluster.local. answer auto'',
           ''forward . '' @ TargetIP r]
      else
        block_text (Namespace r @ '':53 {'')
          [''rewrite name regex (.*)'' @ [BSL] @ ''.'' @ Namespace r @ '' '' @ Namespace r @ ''.svc.cluster.local. answer auto'',
           ''forward . '' @ TargetIP r])"
  by (rule ToCorefile_block)

text \<open>The three shapes at concrete rules, written out byte for byte.\<close>

theorem ToCorefile_exact_witness:
  "ToCorefile \<lparr>Namespace = ''prod'', ServiceName = [], TargetIP = ''10.96.0.10'', IsFullFQDN = True\<rparr>
     = ''prod.svc.cluster.local:53 {'' @ [NL] @ ''    forward . 10.96.0.10'' @ [NL] @ ''}'' \<and>
   ToCorefile \<lparr>Namespace = ''db'', ServiceName = ''mysql'', TargetIP = ''10.96.0.10'', IsFullFQDN = False\<rparr>
     = ''mysql.db:53 {'' @ [NL] @
       ''    rewrite name exact mysql.db mysql.db.svc.cluster.local. answer auto'' @ [NL] @
       ''    forward . 10.96.0.10'' @ [NL] @ ''}'' \<and>
   ToCorefile \<lparr>Namespace = ''staging'', ServiceName = [], TargetIP = ''10.96.0.20'', IsFullFQDN = False\<rparr>
     = ''staging:53 {'' @ [NL] @
       ''    rewrite name regex (.*)'' @ [BSL] @ ''.staging staging.svc.cluster.local. answer auto'' @ [NL] @
       ''    forward . 10.96.0.20'' @ [NL] @ ''}''"
  using ToCorefile_exact [of "\<lparr>Namespace = ''prod'', ServiceName = [], TargetIP = ''10.96.0.10'', IsFullFQDN = True\<rparr>"]
    ToCorefile_exact [of "\<lparr>Namespace = ''db'', ServiceName = ''mysql'', TargetIP = ''10.96.0.10'', IsFullFQDN = False\<rparr>"]
    ToCorefile_exact [of "\<lparr>Namespace = ''staging'', ServiceName = [], TargetIP = ''10.96.0.20'', IsFullFQDN = False\<rparr>"]
  by (simp add: block_text_def GetFullName_def)

text \<open>
  Claim C7. \<^verbatim>\<open>ParseNameInput\<close> trims the input; \<open>isFullFQDN\<close> tells whether the trimmed
  text ends with \<open>.svc.cluster.local\<close>, and that suffix is then removed; what remains is
  cut at its first dot: with a dot in it, the part before the first dot is the service
  name and the part after it the namespace; without one, it is the namespace and the
  service name is empty.
\<close>

theorem ParseNameInput_algorithm:
  assumes "ParseNameInput input0 = (serviceName, namespace, isFullFQDN)"
  shows "isFullFQDN = HasSuffix (TrimSpace input0) ''.svc.cluster.local'' \<and>
         (\<exists>rest. TrimSpace input0 = (if isFullFQDN then rest @ ''.svc.cluster.local'' else rest) \<and>
            (if CHR ''.'' \<in> set rest
             then rest = serviceName @ ''.'' @ namespace \<and> CHR ''.'' \<notin> set serviceName
             else serviceName = [] \<and> namespace = rest))"
proof -
  let ?t = "TrimSpace input0"
  let ?sfx = "''.svc.cluster.local''"
  let ?fq = "HasSuffix ?t ?sfx"
  let ?rest = "if ?fq then TrimSuffix ?t ?sfx else ?t"
  have t: "?t = (if ?fq then ?rest @ ?sfx else ?rest)"
    by (auto simp add: HasSuffix_def TrimSuffix_def simp del: length_Cons list.size) (metis append_take_drop_id)
  have fq: "isFullFQDN = ?fq"
    using assms by (simp add: ParseNameInput_def Let_def split: if_splits)
  from SplitN2_cases [where s = ?rest and c = "CHR ''.''", OF refl]
  have "if CHR ''.'' \<in> set ?rest
        then ?rest = serviceName @ ''.'' @ namespace \<and> CHR ''.'' \<notin> set serviceName
        else serviceName = [] \<and> namespace = ?rest"
  proof
    assume "CHR ''.'' \<in> set ?rest \<and> (\<exists>a b. SplitN2 ?rest (CHR ''.'') = [a, b] \<and> ?rest = a @ [CHR ''.''] @ b \<and> CHR ''.'' \<notin> set a)"
    then obtain a b where d: "CHR ''.'' \<in> set ?rest" and ab: "SplitN2 ?rest (CHR ''.'') = [a, b]"
      "?rest = a @ [CHR ''.''] @ b" "CHR ''.'' \<notin> set a" by blast
    have "serviceName = a \<and> namespace = b"
      using assms ab(1) by (auto simp add: ParseNameInput_def Let_def)
    then show ?thesis using d ab by simp
  next
    assume "CHR ''.'' \<notin> set ?rest \<and> SplitN2 ?rest (CHR ''.'') = [?rest]"
    then have d: "CHR ''.'' \<notin> set ?rest" and p: "SplitN2 ?rest (CHR ''.'') = [?rest]" by blast+
    have "serviceName = [] \<and> namespace = ?rest"
      using assms p by (auto simp add: ParseNameInput_def Let_def)
    then show ?thesis using d by simp
  qed
  then show ?thesis using t fq by blast
qed

theorem ParseNameInput_algorithm_witness:
  "ParseNameInput '' mysql.db.svc.cluster.local '' = (''mysql'', ''db'', True) \<and>
   True = HasSuffix (TrimSpace '' mysql.db.svc.cluster.local '') ''.svc.cluster.local'' \<and>
   (\<exists>rest. TrimSpace '' mysql.db.svc.cluster.local '' = (if True then rest @ ''.svc.cluster.local'' else rest) \<and>
      (if CHR ''.'' \<in> set rest
       then rest = ''mysql'' @ ''.'' @ ''db'' \<and> CHR ''.'' \<notin> set ''mysql''
       else ''mysql'' = [] \<and> ''db'' = rest))"
proof -
  have h: "ParseNameInput '' mysql.db.svc.cluster.local '' = (''mysql'', ''db'', True)"
    by code_simp
  show ?thesis
    using h ParseNameInput_algorithm [OF h] by blast
qed

section \<open>Config applier: duplicate rejection\<close>

lemma find_duplicate_hit:
  "r \<in> set rs \<Longrightarrow> GetFullName r = GetFullName rule \<Longrightarrow>
     find_duplicate rs rule = Some (RuleAlreadyExists (GetFullName rule))"
  by (induction rs) auto

lemma api_call_data: "api_call k = (ok, k') \<Longrightarrow> cm_data k' = cm_data k"
  by (auto simp add: api_call_def split: list.splits)

lemma GetCoreDNSInfo_data: "GetCoreDNSInfo k = (res, k') \<Longrightarrow> cm_data k' = cm_data k"
  by (auto simp add: GetCoreDNSInfo_def Let_def split: prod.splits if_splits dest!: api_call_data)

lemma GetCoreDNSInfo_info:
  "GetCoreDNSInfo k = (Inr info, k') \<Longrightarrow>
     Corefile info = corefile_of k \<and> ForwardRules info = parseForwardRules (corefile_of k)"
  by (auto simp add: GetCoreDNSInfo_def Let_def corefile_of_def split: prod.splits if_splits dest!: api_call_data)

text \<open>
  Claim C2. When the fetch succeeds and some rule parsed from the fetched text has the
  same full name as the new rule (whatever the \<open>IsFullFQDN\<close> flags of the two rules),
  \<^verbatim>\<open>AddForwardRule\<close> returns the "already exists" error and makes no further call: the
  state it leaves is the one the fetch left, and the stored ConfigMap data is the
  original data.
\<close>

theorem AddForwardRule_duplicate:
  assumes "GetCoreDNSInfo k = (Inr info, k1)"
    and "r \<in> set (parseForwardRules (Corefile info))"
    and "GetFullName r = GetFullName rule"
  shows "AddForwardRule k rule = (Some (RuleAlreadyExists (GetFullName rule)), k1) \<and>
         cm_data k1 = cm_data k"
proof -
  have "ForwardRules info = parseForwardRules (Corefile info)"
    using GetCoreDNSInfo_info [OF assms(1)] by simp
  then have "find_duplicate (ForwardRules info) rule = Some (RuleAlreadyExists (GetFullName rule))"
    using assms(2,3) by (simp add: find_duplicate_hit)
  then have "AddForwardRule k rule = (Some (RuleAlreadyExists (GetFullName rule)), k1)"
    using assms(1) by (simp add: AddForwardRule_def)
  then show ?thesis using GetCoreDNSInfo_data [OF assms(1)] by simp
qed

theorem AddForwardRule_duplicate_witness:
  "GetCoreDNSInfo
      \<lparr>cm_data = Some [''Corefile'' \<mapsto> ''prod.svc.cluster.local:53 {'' @ [NL] @ ''    forward . 10.96.0.10'' @ [NL] @ ''}''],
       outcomes = []\<rparr>
     = (Inr \<lparr>Corefile = ''prod.svc.cluster.local:53 {'' @ [NL] @ ''    forward . 10.96.0.10'' @ [NL] @ ''}'',
             ForwardRules = [\<lparr>Namespace = ''prod'', ServiceName = [], TargetIP = ''10.96.0.10'', IsFullFQDN = True\<rparr>]\<rparr>,
        \<lparr>cm_data = Some [''Corefile'' \<mapsto> ''prod.svc.cluster.local:53 {'' @ [NL] @ ''    forward . 10.96.0.10'' @ [NL] @ ''}''],
         outcomes = []\<rparr>) \<and>
   AddForwardRule
      \<lparr>cm_data = Some [''Corefile'' \<mapsto> ''prod.svc.cluster.local:53 {'' @ [NL] @ ''    forward . 10.96.0.10'' @ [NL] @ ''}''],
       outcomes = []\<rparr>
      \<lparr>Namespace = ''prod'', ServiceName = [], TargetIP = ''10.96.0.99'', IsFullFQDN = False\<rparr>
     = (Some (RuleAlreadyExists ''prod''),
        \<lparr>cm_data = Some [''Corefile'' \<mapsto> ''prod.svc.cluster.local:53 {'' @ [NL] @ ''    forward . 10.96.0.10'' @ [NL] @ ''}''],
         outcomes = []\<rparr>)"
proof -
  let ?text = "''prod.svc.cluster.local:53 {'' @ [NL] @ ''    forward . 10.96.0.10'' @ [NL] @ ''}''"
  let ?k = "\<lparr>cm_data = Some [''Corefile'' \<mapsto> ?text], outcomes = []\<rparr>"
  let ?r = "\<lparr>Namespace = ''prod'', ServiceName = [], TargetIP = ''10.96.0.10'', IsFullFQDN = True\<rparr>"
  let ?rule = "\<lparr>Namespace = ''prod'', ServiceName = [], TargetIP = ''10.96.0.99'', IsFullFQDN = False\<rparr>"
  let ?info = "\<lparr>Corefile = ?text, ForwardRules = [?r]\<rparr>"
  have p: "parseForwardRules ?text = [?r]"
    by code_simp
  have h1: "GetCoreDNSInfo ?k = (Inr ?info, ?k)"
    using p by (simp add: GetCoreDNSInfo_def api_call_def corefile_of_def)
  have h2: "?r \<in> set (parseForwardRules (Corefile ?info))"
    using p by simp
  have h3: "GetFullName ?r = GetFullName ?rule"
    by (simp add: GetFullName_def)
  show ?thesis
    using h1 AddForwardRule_duplicate [OF h1 h2 h3] by (simp add: GetFullName_def)
qed

section \<open>Connection cache\<close>

lemma GetClient_hit: "clients m (ID c) = Some h \<Longrightarrow> GetClient usable m c = (Inr h, m)"
  by (simp add: GetClient_def)

lemma GetClient_miss_ok:
  "clients m (ID c) = None \<Longrightarrow> Kubeconfig c \<in> usable \<Longrightarrow>
     GetClient usable m c =
       (Inr (next_handle m),
        m\<lparr>next_handle := Suc (next_handle m), clients := (clients m)(ID c \<mapsto> next_handle m)\<rparr>)"
  by (simp add: GetClient_def createClient_def)

lemma GetClient_miss_fail:
  "clients m (ID c) = None \<Longrightarrow> Kubeconfig c \<notin> usable \<Longrightarrow>
     GetClient usable m c = (Inl CreateClientFailed, m)"
  by (simp add: GetClient_def createClient_def)

lemma GetClient_cached:
  "GetClient usable m c = (Inr h, m1) \<Longrightarrow> clients m1 (ID c) = Some h"
  by (auto simp add: GetClient_def createClient_def split: option.splits if_splits)

lemma GetClient_cache_ok:
  "cache_ok m \<Longrightarrow> GetClient usable m c = (res, m1) \<Longrightarrow> cache_ok m1"
  by (auto simp add: GetClient_def createClient_def cache_ok_def ran_def
      split: option.splits if_splits) (metis less_Suc_eq)+

lemma RemoveClient_cache_ok: "cache_ok m \<Longrightarrow> cache_ok (RemoveClient m i)"
  by (auto simp add: RemoveClient_def cache_ok_def ran_def split: if_splits)

text \<open>
  Claim C9 as stated says that a successful probe leaves the cache unchanged. For an
  identifier that is absent it does not: \<^verbatim>\<open>TestConnection\<close> resolves the handle first,
  and that inserts it. The cluster below carries a credential that is taken as usable
  (the client library accepts it), and the liveness call succeeds.
\<close>

theorem connection_cache_counterexample:
  "TestConnection {''a3ViZWNvbmZpZw==''} UNIV \<lparr>clients = Map.empty, next_handle = 0\<rparr>
       \<lparr>ID = ''c1'', Name = ''c1'', Kubeconfig = ''a3ViZWNvbmZpZw==''\<rparr>
     = (None, \<lparr>clients = [''c1'' \<mapsto> 0], next_handle = 1\<rparr>) \<and>
   clients \<lparr>clients = [''c1'' \<mapsto> 0], next_handle = 1\<rparr> ''c1''
     \<noteq> clients \<lparr>clients = Map.empty, next_handle = 0\<rparr> ''c1''"
  by (simp add: TestConnection_def GetClient_def createClient_def)

text \<open>
  Claim C9, amended. An entry is absent or live (the map holds no third state). After a
  successful \<^verbatim>\<open>GetClient\<close>, a second one returns the same handle and changes nothing.
  When the liveness call fails, \<^verbatim>\<open>TestConnection\<close> returns the connectivity error and
  evicts the identifier's entry, so that the next \<^verbatim>\<open>GetClient\<close> (with a usable
  credential) allocates a handle, which is not the evicted one, and caches it. When the
  liveness call succeeds, \<^verbatim>\<open>TestConnection\<close> evicts nothing and leaves the cache as its
  \<^verbatim>\<open>GetClient\<close> step left it: unchanged when the identifier was live, the new handle
  inserted when it was absent. Evicting an absent identifier changes nothing.
\<close>

theorem connection_cache:
  assumes "GetClient usable m c = (Inr h, m1)"
  shows "GetClient usable' m1 c = (Inr h, m1) \<and>
         (h \<notin> alive \<longrightarrow>
            TestConnection usable alive m c = (Some ConnectFailed, RemoveClient m1 (ID c)) \<and>
            clients (RemoveClient m1 (ID c)) (ID c) = None \<and>
            (Kubeconfig c \<in> usable' \<longrightarrow>
               GetClient usable' (RemoveClient m1 (ID c)) c =
                 (Inr (next_handle m1),
                  m1\<lparr>next_handle := Suc (next_handle m1),
                     clients := (clients m1)(ID c \<mapsto> next_handle m1)\<rparr>)) \<and>
            (cache_ok m \<longrightarrow> next_handle m1 \<noteq> h)) \<and>
         (h \<in> alive \<longrightarrow>
            TestConnection usable alive m c = (None, m1) \<and>
            (clients m (ID c) = None \<longrightarrow> clients m1 = (clients m)(ID c \<mapsto> h)) \<and>
            (clients m (ID c) \<noteq> None \<longrightarrow> m1 = m)) \<and>
         (clients m i = None \<longrightarrow> RemoveClient m i = m)"
proof -
  have cached: "clients m1 (ID c) = Some h" using assms by (rule GetClient_cached)
  have again: "GetClient usable' m1 c = (Inr h, m1)" using cached by (rule GetClient_hit)
  have evict_absent: "clients m i = None \<longrightarrow> RemoveClient m i = m"
    by (simp add: RemoveClient_def fun_upd_idem)
  have failure: "h \<notin> alive \<longrightarrow>
            TestConnection usable alive m c = (Some ConnectFailed, RemoveClient m1 (ID c)) \<and>
            clients (RemoveClient m1 (ID c)) (ID c) = None \<and>
            (Kubeconfig c \<in> usable' \<longrightarrow>
               GetClient usable' (RemoveClient m1 (ID c)) c =
                 (Inr (next_handle m1),
                  m1\<lparr>next_handle := Suc (next_handle m1),
                     clients := (clients m1)(ID c \<mapsto> next_handle m1)\<rparr>)) \<and>
            (cache_ok m \<longrightarrow> next_handle m1 \<noteq> h)"
  proof
    assume dead: "h \<notin> alive"
    have a: "TestConnection usable alive m c = (Some ConnectFailed, RemoveClient m1 (ID c))"
      using assms dead by (simp add: TestConnection_def)
    have b: "clients (RemoveClient m1 (ID c)) (ID c) = None"
      by (simp add: RemoveClient_def)
    have c: "Kubeconfig c \<in> usable' \<longrightarrow>
              GetClient usable' (RemoveClient m1 (ID c)) c =
                (Inr (next_handle m1),
                 m1\<lparr>next_handle := Suc (next_handle m1),
                    clients := (clients m1)(ID c \<mapsto> next_handle m1)\<rparr>)"
      by (simp add: GetClient_def createClient_def RemoveClient_def)
    have d: "cache_ok m \<longrightarrow> next_handle m1 \<noteq> h"
    proof
      assume "cache_ok m"
      then have "cache_ok m1" using assms by (rule GetClient_cache_ok)
      then have "h < next_handle m1" using cached by (auto simp add: cache_ok_def ran_def)
      then show "next_handle m1 \<noteq> h" by simp
    qed
    show "TestConnection usable alive m c = (Some ConnectFailed, RemoveClient m1 (ID c)) \<and>
           clients (RemoveClient m1 (ID c)) (ID c) = None \<and>
           (Kubeconfig c \<in> usable' \<longrightarrow>
              GetClient usable' (RemoveClient m1 (ID c)) c =
                (Inr (next_handle m1),
                 m1\<lparr>next_handle := Suc (next_handle m1),
                    clients := (clients m1)(ID c \<mapsto> next_handle m1)\<rparr>)) \<and>
           (cache_ok m \<longrightarrow> next_handle m1 \<noteq> h)"
      using a b c d by blast
  qed
  have success: "h \<in> alive \<longrightarrow>
            TestConnection usable alive m c = (None, m1) \<and>
            (clients m (ID c) = None \<longrightarrow> clients m1 = (clients m)(ID c \<mapsto> h)) \<and>
            (clients m (ID c) \<noteq> None \<longrightarrow> m1 = m)"
  proof
    assume live: "h \<in> alive"
    have a: "TestConnection usable alive m c = (None, m1)"
      using assms live by (simp add: TestConnection_def)
    have b: "clients m (ID c) = None \<longrightarrow> clients m1 = (clients m)(ID c \<mapsto> h)"
      using assms by (auto simp add: GetClient_def createClient_def split: if_splits)
    have c: "clients m (ID c) \<noteq> None \<longrightarrow> m1 = m"
      using assms by (auto simp add: GetClient_def)
    show "TestConnection usable alive m c = (None, m1) \<and>
           (clients m (ID c) = None \<longrightarrow> clients m1 = (clients m)(ID c \<mapsto> h)) \<and>
           (clients m (ID c) \<noteq> None \<longrightarrow> m1 = m)"
      using a b c by blast
  qed
  show ?thesis using again failure success evict_absent by blast
qed

text \<open>
  The life of one entry, for a cluster whose credential is taken as usable: created on
  the first \<^verbatim>\<open>GetClient\<close>, returned again by the second, evicted by a failed probe and
  created anew afterwards, kept by a successful probe.
\<close>

theorem connection_cache_witness:
  "GetClient {''a3ViZWNvbmZpZw==''} \<lparr>clients = Map.empty, next_handle = 0\<rparr> \<lparr>ID = ''c1'', Name = ''c1'', Kubeconfig = ''a3ViZWNvbmZpZw==''\<rparr>
     = (Inr 0, \<lparr>clients = [''c1'' \<mapsto> 0], next_handle = 1\<rparr>) \<and>
   cache_ok \<lparr>clients = Map.empty, next_handle = 0\<rparr> \<and>
   GetClient {''a3ViZWNvbmZpZw==''} \<lparr>clients = [''c1'' \<mapsto> 0], next_handle = 1\<rparr> \<lparr>ID = ''c1'', Name = ''c1'', Kubeconfig = ''a3ViZWNvbmZpZw==''\<rparr>
     = (Inr 0, \<lparr>clients = [''c1'' \<mapsto> 0], next_handle = 1\<rparr>) \<and>
   TestConnection {''a3ViZWNvbmZpZw==''} {} \<lparr>clients = Map.empty, next_handle = 0\<rparr> \<lparr>ID = ''c1'', Name = ''c1'', Kubeconfig = ''a3ViZWNvbmZpZw==''\<rparr>
     = (Some ConnectFailed, \<lparr>clients = Map.empty, next_handle = 1\<rparr>) \<and>
   GetClient {''a3ViZWNvbmZpZw==''} \<lparr>clients = Map.empty, next_handle = 1\<rparr> \<lparr>ID = ''c1'', Name = ''c1'', Kubeconfig = ''a3ViZWNvbmZpZw==''\<rparr>
     = (Inr 1, \<lparr>clients = [''c1'' \<mapsto> 1], next_handle = 2\<rparr>) \<and>
   TestConnection {''a3ViZWNvbmZpZw==''} UNIV \<lparr>clients = [''c1'' \<mapsto> 0], next_handle = 1\<rparr> \<lparr>ID = ''c1'', Name = ''c1'', Kubeconfig = ''a3ViZWNvbmZpZw==''\<rparr>
     = (None, \<lparr>clients = [''c1'' \<mapsto> 0], next_handle = 1\<rparr>) \<and>
   RemoveClient \<lparr>clients = Map.empty, next_handle = 0\<rparr> ''c1'' = \<lparr>clients = Map.empty, next_handle = 0\<rparr>"
proof -
  let ?c = "\<lparr>ID = ''c1'', Name = ''c1'', Kubeconfig = ''a3ViZWNvbmZpZw==''\<rparr>"
  let ?m0 = "\<lparr>clients = Map.empty, next_handle = 0\<rparr>"
  let ?m1 = "\<lparr>clients = [''c1'' \<mapsto> 0::nat], next_handle = 1\<rparr>"
  have h0: "GetClient {''a3ViZWNvbmZpZw==''} ?m0 ?c = (Inr 0, ?m1)"
    by (simp add: GetClient_def createClient_def)
  have h1: "GetClient {''a3ViZWNvbmZpZw==''} ?m1 ?c = (Inr 0, ?m1)"
    by (simp add: GetClient_def)
  have ok: "cache_ok ?m0" by (simp add: cache_ok_def)
  have r: "RemoveClient ?m1 ''c1'' = \<lparr>clients = Map.empty, next_handle = 1\<rparr>"
    by (simp add: RemoveClient_def)
  show ?thesis
    using h0 h1 ok r
      connection_cache [OF h0, of "{''a3ViZWNvbmZpZw==''}" "{}" "''c1''"]
      connection_cache [OF h1, of "{''a3ViZWNvbmZpZw==''}" UNIV "''c1''"]
    by simp
qed

section \<open>Facts about white space\<close>

lemma space_runes_nonempty: "e \<in> set space_runes \<Longrightarrow> e \<noteq> []"
  by (auto simp add: space_runes_def)

lemma lead_space_pos: "0 < lead_space s \<longleftrightarrow> (\<exists>e \<in> set space_runes. HasPrefix s e)"
proof
  assume "0 < lead_space s"
  then obtain e where "find (HasPrefix s) space_runes = Some e"
    by (auto simp add: lead_space_def split: option.splits)
  then show "\<exists>e \<in> set space_runes. HasPrefix s e"
    by (auto simp add: find_Some_iff)
next
  assume "\<exists>e \<in> set space_runes. HasPrefix s e"
  then obtain e where "find (HasPrefix s) space_runes = Some e"
    by (cases "find (HasPrefix s) space_runes") (auto simp add: find_None_iff)
  moreover from this have "e \<in> set space_runes" by (auto simp add: find_Some_iff)
  ultimately show "0 < lead_space s"
    using space_runes_nonempty by (auto simp add: lead_space_def)
qed

lemma lead_space_split:
  assumes "0 < lead_space s"
  shows "\<exists>e \<in> set space_runes. s = e @ drop (lead_space s) s \<and> lead_space s = length e"
proof -
  from assms obtain e where f: "find (HasPrefix s) space_runes = Some e"
    by (auto simp add: lead_space_def split: option.splits)
  then have e: "e \<in> set space_runes" "HasPrefix s e" by (auto simp add: find_Some_iff)
  have l: "lead_space s = length e" using f by (simp add: lead_space_def)
  from e(2) obtain t where "s = e @ t" by (auto simp add: HasPrefix_iff)
  then have "s = e @ drop (length e) s" by simp
  then show ?thesis using e(1) l by auto
qed

lemma trail_space_pos: "0 < trail_space s \<longleftrightarrow> (\<exists>e \<in> set space_runes. HasSuffix s e)"
proof
  assume "0 < trail_space s"
  then obtain e where "find (HasSuffix s) space_runes = Some e"
    by (auto simp add: trail_space_def split: option.splits)
  then show "\<exists>e \<in> set space_runes. HasSuffix s e"
    by (auto simp add: find_Some_iff)
next
  assume "\<exists>e \<in> set space_runes. HasSuffix s e"
  then obtain e where "find (HasSuffix s) space_runes = Some e"
    by (cases "find (HasSuffix s) space_runes") (auto simp add: find_None_iff)
  moreover from this have "e \<in> set space_runes" by (auto simp add: find_Some_iff)
  ultimately show "0 < trail_space s"
    using space_runes_nonempty by (auto simp add: trail_space_def)
qed

lemma trail_space_split:
  assumes "0 < trail_space s"
  shows "\<exists>e \<in> set space_runes. s = take (length s - trail_space s) s @ e \<and> trail_space s = length e"
proof -
  from assms obtain e where f: "find (HasSuffix s) space_runes = Some e"
    by (auto simp add: trail_space_def split: option.splits)
  then have e: "e \<in> set space_runes" "HasSuffix s e" by (auto simp add: find_Some_iff)
  have l: "trail_space s = length e" using f by (simp add: trail_space_def)
  from e(2) obtain t where "s = t @ e" by (auto simp add: HasSuffix_iff)
  then have "s = take (length s - length e) s @ e" by simp
  then show ?thesis using e(1) l by auto
qed

declare trim_left.simps [simp del] trim_right.simps [simp del]

lemma trim_left_id: "lead_space s = 0 \<Longrightarrow> trim_left s = s"
  by (subst trim_left.simps) simp

lemma trim_right_id: "trail_space s = 0 \<Longrightarrow> trim_right s = s"
  by (subst trim_right.simps) simp

lemma trim_left_step: "0 < lead_space s \<Longrightarrow> trim_left s = trim_left (drop (lead_space s) s)"
  by (cases "s = []") (simp, subst trim_left.simps, simp)

lemma trim_right_step:
  "0 < trail_space s \<Longrightarrow> trim_right s = trim_right (take (length s - trail_space s) s)"
  by (cases "s = []") (simp, subst trim_right.simps, simp)

text \<open>Trimming removes bytes of white-space encodings only.\<close>

lemma set_trim_left: "c \<notin> set (concat space_runes) \<Longrightarrow> c \<in> set (trim_left s) \<longleftrightarrow> c \<in> set s"
proof (induction s rule: trim_left.induct)
  case (1 s)
  show ?case
  proof (cases "0 < lead_space s \<and> s \<noteq> []")
    case True
    then obtain e where e: "e \<in> set space_runes" "s = e @ drop (lead_space s) s"
      using lead_space_split by blast
    have "c \<notin> set e" using e(1) "1.prems" by auto
    then have "c \<in> set s \<longleftrightarrow> c \<in> set (drop (lead_space s) s)"
      using e(2) by (metis Un_iff set_append)
    moreover have "trim_left s = trim_left (drop (lead_space s) s)"
      using True by (simp add: trim_left_step)
    ultimately show ?thesis using "1.IH" [OF True "1.prems"] by simp
  next
    case False
    then have "trim_left s = s" by (subst trim_left.simps) auto
    then show ?thesis by simp
  qed
qed

lemma set_trim_right: "c \<notin> set (concat space_runes) \<Longrightarrow> c \<in> set (trim_right s) \<longleftrightarrow> c \<in> set s"
proof (induction s rule: trim_right.induct)
  case (1 s)
  show ?case
  proof (cases "0 < trail_space s \<and> s \<noteq> []")
    case True
    then obtain e where e: "e \<in> set space_runes" "s = take (length s - trail_space s) s @ e"
      using trail_space_split by blast
    have "c \<notin> set e" using e(1) "1.prems" by auto
    then have "c \<in> set s \<longleftrightarrow> c \<in> set (take (length s - trail_space s) s)"
      using e(2) by (metis Un_iff set_append)
    moreover have "trim_right s = trim_right (take (length s - trail_space s) s)"
      using True by (simp add: trim_right_step)
    ultimately show ?thesis using "1.IH" [OF True "1.prems"] by simp
  next
    case False
    then have "trim_right s = s" by (subst trim_right.simps) auto
    then show ?thesis by simp
  qed
qed

lemma set_TrimSpace: "c \<notin> set (concat space_runes) \<Longrightarrow> c \<in> set (TrimSpace s) \<longleftrightarrow> c \<in> set s"
  by (simp add: TrimSpace_def set_trim_left set_trim_right)

lemma brace_not_space: "CHR ''}'' \<notin> set (concat space_runes)"
  by (simp add: space_runes_def)

lemma Contains_brace_TrimSpace: "Contains (TrimSpace s) ''}'' \<longleftrightarrow> CHR ''}'' \<in> set s"
  using set_TrimSpace [OF brace_not_space] by simp

section \<open>Parser: which headers give a rule\<close>

lemma parse_lines_concat:
  "parse_lines ls = concat (map (\<lambda>i. parse_line (ls ! i) (drop (Suc i) ls)) [0..<length ls])"
proof (induction ls)
  case Nil
  then show ?case by simp
next
  case (Cons l ls)
  have "[0..<length (l # ls)] = 0 # map Suc [0..<length ls]"
    by (simp add: upt_conv_Cons map_Suc_upt del: upt_Suc)
  then show ?case using Cons.IH by (simp add: comp_def del: upt_Suc)
qed

lemma parseForwardRules_rules_at:
  "parseForwardRules corefile = concat (map (rules_at corefile) [0..<length (Split corefile NL)])"
proof -
  have "rules_at corefile =
          (\<lambda>i. parse_line (Split corefile NL ! i) (drop (Suc i) (Split corefile NL)))"
    by (rule ext) (simp add: rules_at_def Let_def)
  then show ?thesis by (simp add: parseForwardRules_def parse_lines_concat)
qed

lemma concat_skip_empty:
  "f i = [] \<Longrightarrow> concat (map f xs) = concat (map f (filter (\<lambda>j. j \<noteq> i) xs))"
  by (induction xs) auto

lemma parse_line_excluded:
  "domain_part (TrimSpace line) = [] \<or> domain_part (TrimSpace line) = ''.'' \<or>
   domain_part (TrimSpace line) = ''cluster.local'' \<Longrightarrow> parse_line line rest = []"
  by (auto simp add: parse_line_def Let_def)

lemma scan_forward_found:
  assumes "r \<in> set (scan_forward ns svc fq ls)"
  shows "\<exists>k < length ls.
           HasPrefix (TrimSpace (ls ! k)) ''forward .'' \<and>
           3 \<le> length (Fields (TrimSpace (ls ! k))) \<and>
           r = \<lparr>Namespace = ns, ServiceName = svc,
                TargetIP = Fields (TrimSpace (ls ! k)) ! 2, IsFullFQDN = fq\<rparr> \<and>
           (\<forall>j < k. \<not> HasPrefix (TrimSpace (ls ! j)) ''forward .'' \<and> CHR ''}'' \<notin> set (ls ! j))"
  using assms
proof (induction ls)
  case Nil
  then show ?case by simp
next
  case (Cons l ls)
  show ?case
  proof (cases "HasPrefix (TrimSpace l) ''forward .''")
    case True
    then have "3 \<le> length (Fields (TrimSpace l)) \<and>
               r = \<lparr>Namespace = ns, ServiceName = svc,
                    TargetIP = Fields (TrimSpace l) ! 2, IsFullFQDN = fq\<rparr>"
      using Cons.prems by (auto simp add: Let_def split: if_splits)
    then have "HasPrefix (TrimSpace ((l # ls) ! 0)) ''forward .'' \<and>
           3 \<le> length (Fields (TrimSpace ((l # ls) ! 0))) \<and>
           r = \<lparr>Namespace = ns, ServiceName = svc,
                TargetIP = Fields (TrimSpace ((l # ls) ! 0)) ! 2, IsFullFQDN = fq\<rparr> \<and>
           (\<forall>j < 0. \<not> HasPrefix (TrimSpace ((l # ls) ! j)) ''forward .'' \<and> CHR ''}'' \<notin> set ((l # ls) ! j))"
      using True by simp
    then show ?thesis by (intro exI [of _ 0]) simp
  next
    case False
    then have nb: "CHR ''}'' \<notin> set l" and rec: "r \<in> set (scan_forward ns svc fq ls)"
      using Cons.prems set_TrimSpace [OF brace_not_space, of l] by (auto simp add: Let_def split: if_splits)
    from Cons.IH [OF rec] obtain k where k: "k < length ls"
      "HasPrefix (TrimSpace (ls ! k)) ''forward .''"
      "3 \<le> length (Fields (TrimSpace (ls ! k)))"
      "r = \<lparr>Namespace = ns, ServiceName = svc,
                TargetIP = Fields (TrimSpace (ls ! k)) ! 2, IsFullFQDN = fq\<rparr>"
      "\<forall>j < k. \<not> HasPrefix (TrimSpace (ls ! j)) ''forward .'' \<and> CHR ''}'' \<notin> set (ls ! j)"
      by blast
    have "\<forall>j < Suc k. \<not> HasPrefix (TrimSpace ((l # ls) ! j)) ''forward .'' \<and> CHR ''}'' \<notin> set ((l # ls) ! j)"
      using k(5) False nb by (auto simp add: less_Suc_eq_0_disj)
    then show ?thesis using k(1-4) by (intro exI [of _ "Suc k"]) simp
  qed
qed

lemma scan_forward_single: "length (scan_forward ns svc fq ls) \<le> 1"
  by (induction ls) (auto simp add: Let_def)

lemma parse_line_shape:
  "parse_line line rest = [] \<or>
   (\<exists>ns svc fq. parse_line line rest = scan_forward ns svc fq (take 9 rest))"
  by (cases "split_domain (domain_part (TrimSpace line))") (auto simp add: parse_line_def Let_def)

lemma parse_line_scan:
  assumes "r \<in> set (parse_line line rest)"
  shows "\<exists>ns svc fq. r \<in> set (scan_forward ns svc fq (take 9 rest)) \<and>
        parse_line line rest = scan_forward ns svc fq (take 9 rest)"
proof -
  have "parse_line line rest \<noteq> []" using assms by auto
  then obtain ns svc fq where "parse_line line rest = scan_forward ns svc fq (take 9 rest)"
    using parse_line_shape by blast
  then show ?thesis using assms by auto
qed

text \<open>
  Claim C5. A line of the text whose domain part is empty, \<open>.\<close> or \<open>cluster.local\<close>
  contributes no rule: the iteration for that line appends nothing, so the parsed list
  is made of the contributions of the other lines. The headers \<open>.:53 {\<close> and
  \<open>cluster.local:53 {\<close> have the domain parts \<open>.\<close> and \<open>cluster.local\<close>.
\<close>

theorem domain_exclusion:
  assumes "i < length (Split corefile NL)"
    and "domain_part (TrimSpace (Split corefile NL ! i)) = [] \<or>
           domain_part (TrimSpace (Split corefile NL ! i)) = ''.'' \<or>
           domain_part (TrimSpace (Split corefile NL ! i)) = ''cluster.local''"
  shows "rules_at corefile i = [] \<and>
         parseForwardRules corefile =
           concat (map (rules_at corefile) (filter (\<lambda>j. j \<noteq> i) [0..<length (Split corefile NL)])) \<and>
         domain_part (TrimSpace ''.:53 {'') = ''.'' \<and>
         domain_part (TrimSpace ''cluster.local:53 {'') = ''cluster.local''"
proof -
  have a: "rules_at corefile i = []"
    using assms(2) by (simp add: rules_at_def parse_line_excluded)
  have b: "parseForwardRules corefile =
           concat (map (rules_at corefile) (filter (\<lambda>j. j \<noteq> i) [0..<length (Split corefile NL)]))"
    using concat_skip_empty [of "rules_at corefile" i, OF a] by (simp add: parseForwardRules_rules_at)
  have c: "domain_part (TrimSpace ''.:53 {'') = ''.''" by code_simp
  have d: "domain_part (TrimSpace ''cluster.local:53 {'') = ''cluster.local''" by code_simp
  show ?thesis using a b c d by blast
qed

theorem domain_exclusion_witness:
  "domain_part (TrimSpace (Split
      (Join [''.:53 {'', ''    forward . 8.8.8.8'', ''}'',
             ''cluster.local:53 {'', ''    forward . 10.0.0.1'', ''}'',
             '':53 {'', ''    forward . 10.0.0.2'', ''}''] NL) NL ! 0)) = ''.'' \<and>
   domain_part (TrimSpace (Split
      (Join [''.:53 {'', ''    forward . 8.8.8.8'', ''}'',
             ''cluster.local:53 {'', ''    forward . 10.0.0.1'', ''}'',
             '':53 {'', ''    forward . 10.0.0.2'', ''}''] NL) NL ! 3)) = ''cluster.local'' \<and>
   domain_part (TrimSpace (Split
      (Join [''.:53 {'', ''    forward . 8.8.8.8'', ''}'',
             ''cluster.local:53 {'', ''    forward . 10.0.0.1'', ''}'',
             '':53 {'', ''    forward . 10.0.0.2'', ''}''] NL) NL ! 6)) = [] \<and>
   rules_at (Join [''.:53 {'', ''    forward . 8.8.8.8'', ''}'',
             ''cluster.local:53 {'', ''    forward . 10.0.0.1'', ''}'',
             '':53 {'', ''    forward . 10.0.0.2'', ''}''] NL) 0 = [] \<and>
   rules_at (Join [''.:53 {'', ''    forward . 8.8.8.8'', ''}'',
             ''cluster.local:53 {'', ''    forward . 10.0.0.1'', ''}'',
             '':53 {'', ''    forward . 10.0.0.2'', ''}''] NL) 3 = [] \<and>
   rules_at (Join [''.:53 {'', ''    forward . 8.8.8.8'', ''}'',
             ''cluster.local:53 {'', ''    forward . 10.0.0.1'', ''}'',
             '':53 {'', ''    forward . 10.0.0.2'', ''}''] NL) 6 = []"
proof -
  let ?text = "Join [''.:53 {'', ''    forward . 8.8.8.8'', ''}'',
             ''cluster.local:53 {'', ''    forward . 10.0.0.1'', ''}'',
             '':53 {'', ''    forward . 10.0.0.2'', ''}''] NL"
  have h0: "domain_part (TrimSpace (Split ?text NL ! 0)) = ''.''" by code_simp
  have h3: "domain_part (TrimSpace (Split ?text NL ! 3)) = ''cluster.local''" by code_simp
  have h6: "domain_part (TrimSpace (Split ?text NL ! 6)) = []" by code_simp
  have l0: "0 < length (Split ?text NL)" by code_simp
  have l3: "3 < length (Split ?text NL)" by code_simp
  have l6: "6 < length (Split ?text NL)" by code_simp
  show ?thesis
    using h0 h3 h6
      domain_exclusion [OF l0] domain_exclusion [OF l3] domain_exclusion [OF l6]
    by blast
qed

text \<open>
  Claim C6. When the header on line \<open>i\<close> gives a rule, a line that starts (trimmed) with
  \<open>forward .\<close> is among the 9 lines after the header, the target address is its third
  field, and no line between the header and it starts with \<open>forward .\<close> or holds a
  closing brace. So a \<open>forward .\<close> line that comes more than 9 lines after the header, or
  after a line with a closing brace, gives no rule for that header.
\<close>

theorem lookahead_bound:
  assumes "r \<in> set (rules_at corefile i)"
  shows "\<exists>j. i < j \<and> j \<le> i + 9 \<and> j < length (Split corefile NL) \<and>
           HasPrefix (TrimSpace (Split corefile NL ! j)) ''forward .'' \<and>
           3 \<le> length (Fields (TrimSpace (Split corefile NL ! j))) \<and>
           TargetIP r = Fields (TrimSpace (Split corefile NL ! j)) ! 2 \<and>
           rules_at corefile i = [r] \<and>
           (\<forall>k. i < k \<and> k < j \<longrightarrow>
              \<not> HasPrefix (TrimSpace (Split corefile NL ! k)) ''forward .'' \<and>
              CHR ''}'' \<notin> set (Split corefile NL ! k))"
proof -
  let ?lines = "Split corefile NL"
  let ?win = "take 9 (drop (Suc i) ?lines)"
  have "r \<in> set (parse_line (?lines ! i) (drop (Suc i) ?lines))"
    using assms by (simp add: rules_at_def Let_def)
  then obtain ns svc fq where sc: "r \<in> set (scan_forward ns svc fq ?win)"
    and eq: "parse_line (?lines ! i) (drop (Suc i) ?lines) = scan_forward ns svc fq ?win"
    using parse_line_scan by blast
  from scan_forward_found [OF sc] obtain k where k: "k < length ?win"
    "HasPrefix (TrimSpace (?win ! k)) ''forward .''"
    "3 \<le> length (Fields (TrimSpace (?win ! k)))"
    "r = \<lparr>Namespace = ns, ServiceName = svc,
          TargetIP = Fields (TrimSpace (?win ! k)) ! 2, IsFullFQDN = fq\<rparr>"
    "\<forall>j < k. \<not> HasPrefix (TrimSpace (?win ! j)) ''forward .'' \<and> CHR ''}'' \<notin> set (?win ! j)"
    by blast
  have k9: "k < 9" and kl: "Suc i + k < length ?lines" using k(1) by auto
  have nth: "\<And>j. j \<le> k \<Longrightarrow> ?win ! j = ?lines ! (Suc i + j)"
    using k9 kl by simp
  have single: "rules_at corefile i = [r]"
  proof -
    have "length (scan_forward ns svc fq ?win) \<le> 1" by (rule scan_forward_single)
    then show ?thesis using sc eq
      by (cases "scan_forward ns svc fq ?win") (auto simp add: rules_at_def Let_def)
  qed
  have before: "\<forall>m. i < m \<and> m < Suc i + k \<longrightarrow>
              \<not> HasPrefix (TrimSpace (?lines ! m)) ''forward .'' \<and> CHR ''}'' \<notin> set (?lines ! m)"
  proof (intro allI impI)
    fix m assume m: "i < m \<and> m < Suc i + k"
    then obtain j where j: "m = Suc i + j" "j < k"
      by (metis add_Suc less_iff_Suc_add nat_add_left_cancel_less)
    then have "?win ! j = ?lines ! m" using nth [of j] by simp
    then show "\<not> HasPrefix (TrimSpace (?lines ! m)) ''forward .'' \<and> CHR ''}'' \<notin> set (?lines ! m)"
      using k(5) j(2) by metis
  qed
  have "i < Suc i + k \<and> Suc i + k \<le> i + 9 \<and> Suc i + k < length ?lines \<and>
           HasPrefix (TrimSpace (?lines ! (Suc i + k))) ''forward .'' \<and>
           3 \<le> length (Fields (TrimSpace (?lines ! (Suc i + k)))) \<and>
           TargetIP r = Fields (TrimSpace (?lines ! (Suc i + k))) ! 2 \<and>
           rules_at corefile i = [r] \<and>
           (\<forall>m. i < m \<and> m < Suc i + k \<longrightarrow>
              \<not> HasPrefix (TrimSpace (?lines ! m)) ''forward .'' \<and>
              CHR ''}'' \<notin> set (?lines ! m))"
    using k9 kl k(2,3,4) nth [of k] single before by simp
  then show ?thesis by blast
qed

text \<open>
  The directive on the ninth line after the header is found; on the tenth it is not;
  after a closing brace it is not.
\<close>

theorem lookahead_bound_witness:
  "\<lparr>Namespace = ''a'', ServiceName = [], TargetIP = ''10.0.0.1'', IsFullFQDN = False\<rparr>
     \<in> set (rules_at (Join (''a:53 {'' # replicate 8 ''    log'' @ [''    forward . 10.0.0.1'', ''}'']) NL) 0) \<and>
   (\<exists>j. 0 < j \<and> j \<le> 0 + 9 \<and>
      j < length (Split (Join (''a:53 {'' # replicate 8 ''    log'' @ [''    forward . 10.0.0.1'', ''}'']) NL) NL) \<and>
      HasPrefix (TrimSpace (Split (Join (''a:53 {'' # replicate 8 ''    log'' @ [''    forward . 10.0.0.1'', ''}'']) NL) NL ! j))
        ''forward .'' \<and>
      rules_at (Join (''a:53 {'' # replicate 8 ''    log'' @ [''    forward . 10.0.0.1'', ''}'']) NL) 0
        = [\<lparr>Namespace = ''a'', ServiceName = [], TargetIP = ''10.0.0.1'', IsFullFQDN = False\<rparr>]) \<and>
   rules_at (Join (''a:53 {'' # replicate 9 ''    log'' @ [''    forward . 10.0.0.1'', ''}'']) NL) 0 = [] \<and>
   rules_at (Join [''a:53 {'', ''}'', ''    forward . 10.0.0.1''] NL) 0 = []"
proof -
  let ?r = "\<lparr>Namespace = ''a'', ServiceName = [], TargetIP = ''10.0.0.1'', IsFullFQDN = False\<rparr>"
  let ?A = "Join (''a:53 {'' # replicate 8 ''    log'' @ [''    forward . 10.0.0.1'', ''}'']) NL"
  have "rules_at ?A 0 = [?r]" by code_simp
  then have h: "?r \<in> set (rules_at ?A 0)" by simp
  have far: "rules_at (Join (''a:53 {'' # replicate 9 ''    log'' @ [''    forward . 10.0.0.1'', ''}'']) NL) 0 = []"
    by code_simp
  have brace: "rules_at (Join [''a:53 {'', ''}'', ''    forward . 10.0.0.1''] NL) 0 = []"
    by code_simp
  show ?thesis
    using h lookahead_bound [OF h] far brace by blast
qed

section \<open>Splitting into lines and joining back\<close>

lemma split_from_nonempty: "split_from c cur s \<noteq> []"
  by (induction s arbitrary: cur) auto

lemma split_from_append:
  "c \<notin> set a \<Longrightarrow> split_from c cur (a @ s) = split_from c (cur @ a) s"
  by (induction a arbitrary: cur) auto

lemma split_from_line: "c \<notin> set a \<Longrightarrow> split_from c cur a = [cur @ a]"
  using split_from_append [of c a cur "[]"] by simp

lemma split_from_sep:
  "c \<notin> set a \<Longrightarrow> split_from c cur (a @ c # s) = (cur @ a) # split_from c [] s"
  by (simp add: split_from_append)

lemma Split_line: "c \<notin> set a \<Longrightarrow> Split a c = [a]"
  by (simp add: Split_def split_from_line)

lemma Split_sep: "c \<notin> set a \<Longrightarrow> Split (a @ c # s) c = a # Split s c"
  by (simp add: Split_def split_from_sep)

lemma Join_Cons: "Join (l # ls) c = (if ls = [] then l else l @ [c] @ Join ls c)"
  by (cases ls) auto

lemma Join_split_from: "Join (split_from c cur s) c = cur @ s"
proof (induction s arbitrary: cur)
  case Nil
  then show ?case by simp
next
  case (Cons x xs)
  then show ?case by (simp add: Join_Cons split_from_nonempty)
qed

lemma Join_Split: "Join (Split s c) c = s"
  by (simp add: Split_def Join_split_from)

lemma Split_Join:
  "ls \<noteq> [] \<Longrightarrow> list_all (\<lambda>l. c \<notin> set l) ls \<Longrightarrow> Split (Join ls c) c = ls"
proof (induction ls)
  case Nil
  then show ?case by simp
next
  case (Cons l ls)
  show ?case
  proof (cases "ls = []")
    case True
    then show ?thesis using Cons.prems by (simp add: Split_line)
  next
    case False
    then have "Split (Join ls c) c = ls" using Cons by simp
    moreover have "Join (l # ls) c = l @ c # Join ls c" using False by (simp add: Join_Cons)
    ultimately show ?thesis using Cons.prems by (simp add: Split_sep)
  qed
qed

lemma Split_block_text:
  "NL \<notin> set header \<Longrightarrow> list_all (\<lambda>l. NL \<notin> set l) body \<Longrightarrow>
     Split (block_text header body) NL = header # map (\<lambda>l. ''    '' @ l) body @ [''}'']"
  unfolding block_text_def
  by (rule Split_Join) (auto simp add: list_all_iff)

section \<open>Deletion\<close>

declare delete_loop.simps(2) [simp del]

lemma delete_loop_count_irrelevant:
  "delete_loop rb False d ls = delete_loop rb False d' ls"
proof (induction ls arbitrary: d d')
  case Nil
  then show ?case by simp
next
  case (Cons l ls)
  show ?case
  proof (cases "HasPrefix (TrimSpace l) rb")
    case True
    then show ?thesis by (simp add: delete_loop.simps(2))
  next
    case False
    then show ?thesis using Cons.IH [of d d'] by (simp add: delete_loop.simps(2))
  qed
qed

lemma delete_loop_plain:
  "list_all (\<lambda>l. \<not> matches rb l) pre \<Longrightarrow>
     delete_loop rb False d (pre @ rest) = pre @ delete_loop rb False d rest"
  by (induction pre) (auto simp add: delete_loop.simps(2) matches_def)

lemma delete_loop_skip:
  "closes_at_end d ls \<Longrightarrow> list_all (\<lambda>l. \<not> matches rb l) ls \<Longrightarrow>
     delete_loop rb True d (ls @ rest) = delete_loop rb False 0 rest"
proof (induction ls arbitrary: d)
  case Nil
  then show ?case by simp
next
  case (Cons l ls)
  let ?d = "d + int (Count l (CHR ''{'')) - int (Count l (CHR ''}''))"
  have nm: "\<not> HasPrefix (TrimSpace l) rb" using Cons.prems(2) by (simp add: matches_def)
  show ?case
  proof (cases "?d \<le> 0 \<and> CHR ''}'' \<in> set l")
    case True
    then have "ls = []" using Cons.prems(1) by (simp add: Let_def)
    then show ?thesis
      using True nm delete_loop_count_irrelevant [of rb ?d rest 0]
      by (simp add: delete_loop.simps(2) Let_def)
  next
    case False
    then have "closes_at_end ?d ls" using Cons.prems(1) by (auto simp add: Let_def)
    then have "delete_loop rb True ?d (ls @ rest) = delete_loop rb False 0 rest"
      using Cons.IH Cons.prems(2) by simp
    then show ?thesis using False nm by (auto simp add: delete_loop.simps(2) Let_def)
  qed
qed

lemma delete_loop_block:
  assumes "is_block rb blk"
  shows "delete_loop rb False d (blk @ rest) = delete_loop rb False 0 rest"
proof -
  from assms obtain h body where blk: "blk = h # body" and m: "matches rb h"
    and nm: "list_all (\<lambda>l. \<not> matches rb l) body" and cl: "closes_at_end 0 (h # body)"
    by (auto simp add: is_block_def split: list.splits)
  let ?d = "int (Count h (CHR ''{'')) - int (Count h (CHR ''}''))"
  have hp: "HasPrefix (TrimSpace h) rb" using m by (simp add: matches_def)
  show ?thesis
  proof (cases "?d \<le> 0 \<and> CHR ''}'' \<in> set h")
    case True
    then have "body = []" using cl by (simp add: Let_def)
    then show ?thesis
      using True hp blk delete_loop_count_irrelevant [of rb ?d rest 0]
      by (simp add: delete_loop.simps(2) Let_def)
  next
    case False
    then have "closes_at_end ?d body" using cl by (auto simp add: Let_def)
    then have "delete_loop rb True ?d (body @ rest) = delete_loop rb False 0 rest"
      using nm by (rule delete_loop_skip)
    then show ?thesis using False hp blk by (auto simp add: delete_loop.simps(2) Let_def)
  qed
qed

lemma delete_loop_segments:
  assumes "list_all (\<lambda>(p, b). list_all (\<lambda>l. \<not> matches rb l) p \<and> is_block rb b) segs"
    and "list_all (\<lambda>l. \<not> matches rb l) post"
  shows "delete_loop rb False 0 (concat (map (\<lambda>(p, b). p @ b) segs) @ post)
           = concat (map fst segs) @ post"
  using assms(1)
proof (induction segs)
  case Nil
  show ?case using delete_loop_plain [OF assms(2), of 0 "[]"] by simp
next
  case (Cons seg segs)
  obtain p b where seg: "seg = (p, b)" by (cases seg)
  have p: "list_all (\<lambda>l. \<not> matches rb l) p" and b: "is_block rb b"
    using Cons.prems seg by auto
  let ?rest = "concat (map (\<lambda>(p, b). p @ b) segs) @ post"
  have "delete_loop rb False 0 (p @ b @ ?rest) = p @ delete_loop rb False 0 (b @ ?rest)"
    using p by (rule delete_loop_plain)
  also have "delete_loop rb False 0 (b @ ?rest) = delete_loop rb False 0 ?rest"
    using b by (rule delete_loop_block)
  also have "delete_loop rb False 0 ?rest = concat (map fst segs) @ post"
    using Cons by simp
  finally show ?case using seg by simp
qed

text \<open>What a run of DeleteForwardRule without a failing call does to the cluster.\<close>

lemma api_call_ok:
  "list_all (\<lambda>b. b) (outcomes k) \<Longrightarrow>
     api_call k = (True, k\<lparr>outcomes := tl (outcomes k)\<rparr>)"
  by (cases "outcomes k") (auto simp add: api_call_def)

lemma list_all_tl: "list_all P xs \<Longrightarrow> list_all P (tl xs)"
  by (cases xs) auto

lemma GetCoreDNSInfo_ok:
  assumes "list_all (\<lambda>b. b) (outcomes k)"
  shows "GetCoreDNSInfo k =
           (Inr \<lparr>Corefile = corefile_of k, ForwardRules = parseForwardRules (corefile_of k)\<rparr>,
            k\<lparr>outcomes := tl (tl (tl (outcomes k)))\<rparr>)"
proof -
  let ?k1 = "k\<lparr>outcomes := tl (outcomes k)\<rparr>"
  let ?k2 = "k\<lparr>outcomes := tl (tl (outcomes k))\<rparr>"
  let ?k3 = "k\<lparr>outcomes := tl (tl (tl (outcomes k)))\<rparr>"
  have 1: "api_call k = (True, ?k1)" using assms by (rule api_call_ok)
  have "list_all (\<lambda>b. b) (outcomes ?k1)" using assms by (simp add: list_all_tl)
  from api_call_ok [OF this] have 2: "api_call ?k1 = (True, ?k2)" by simp
  have "list_all (\<lambda>b. b) (outcomes ?k2)" using assms by (simp add: list_all_tl)
  from api_call_ok [OF this] have 3: "api_call ?k2 = (True, ?k3)" by simp
  show ?thesis by (simp add: GetCoreDNSInfo_def 1 2 3 corefile_of_def)
qed

lemma UpdateCorefile_ok:
  assumes "list_all (\<lambda>b. b) (outcomes k)" and "cm_data k = Some m"
  shows "UpdateCorefile k text =
           (None, k\<lparr>outcomes := tl (tl (tl (outcomes k))),
                    cm_data := Some (m(''Corefile'' \<mapsto> text))\<rparr>)"
proof -
  let ?k1 = "k\<lparr>outcomes := tl (outcomes k)\<rparr>"
  let ?k2 = "k\<lparr>outcomes := tl (tl (outcomes k))\<rparr>"
  let ?k3 = "k\<lparr>outcomes := tl (tl (tl (outcomes k)))\<rparr>"
  have 1: "api_call k = (True, ?k1)" using assms(1) by (rule api_call_ok)
  have "list_all (\<lambda>b. b) (outcomes ?k1)" using assms(1) by (simp add: list_all_tl)
  from api_call_ok [OF this] have 2: "api_call ?k1 = (True, ?k2)" by simp
  have "list_all (\<lambda>b. b) (outcomes ?k2)" using assms(1) by (simp add: list_all_tl)
  from api_call_ok [OF this] have 3: "api_call ?k2 = (True, ?k3)" by simp
  show ?thesis by (simp add: UpdateCorefile_def 1 2 3 assms(2))
qed

lemma DeleteForwardRule_ok:
  assumes "list_all (\<lambda>b. b) (outcomes k)" and "cm_data k = Some m"
  shows "DeleteForwardRule k name fq =
           (None, k\<lparr>outcomes := tl (tl (tl (tl (tl (tl (outcomes k)))))),
                    cm_data := Some (m(''Corefile'' \<mapsto> delete_text name fq (corefile_of k)))\<rparr>)"
proof -
  let ?k3 = "k\<lparr>outcomes := tl (tl (tl (outcomes k)))\<rparr>"
  have a: "list_all (\<lambda>b. b) (outcomes ?k3)" using assms(1) by (simp add: list_all_tl)
  have b: "cm_data ?k3 = Some m" using assms(2) by simp
  show ?thesis
    using GetCoreDNSInfo_ok [OF assms(1)] UpdateCorefile_ok [OF a b]
    by (simp add: DeleteForwardRule_def)
qed

lemma UpdateCorefile_stored:
  "UpdateCorefile k text = (None, k') \<Longrightarrow> corefile_of k' = text"
  by (auto simp add: UpdateCorefile_def corefile_of_def Let_def
      split: prod.splits if_splits option.splits)

lemma DeleteForwardRule_stored:
  assumes "DeleteForwardRule k name fq = (None, k')"
  shows "corefile_of k' = delete_text name fq (corefile_of k)"
proof (cases "GetCoreDNSInfo k")
  case (Pair res k1)
  show ?thesis
  proof (cases res)
    case (Inl e)
    then show ?thesis using assms Pair by (simp add: DeleteForwardRule_def)
  next
    case (Inr info)
    then have u: "UpdateCorefile k1 (delete_text name fq (Corefile info)) = (None, k')"
      using assms Pair by (simp add: DeleteForwardRule_def)
    have "Corefile info = corefile_of k"
      using Pair Inr GetCoreDNSInfo_info by blast
    then show ?thesis using UpdateCorefile_stored [OF u] by simp
  qed
qed

lemma Count_append: "Count (a @ b) c = Count a c + Count b c"
  by (simp add: Count_def)

lemma Count_Cons: "Count (x # a) c = (if x = c then Suc (Count a c) else Count a c)"
  by (simp add: Count_def)

lemma Count_Nil: "Count [] c = 0"
  by (simp add: Count_def)

lemma Count_notin: "c \<notin> set s \<Longrightarrow> Count s c = 0"
  by (induction s) (auto simp add: Count_def)

lemma delete_loop_skip_plain_body:
  "d \<le> 1 \<Longrightarrow> list_all (\<lambda>b. CHR ''{'' \<notin> set b \<and> CHR ''}'' \<notin> set b) body \<Longrightarrow>
     delete_loop rb True d (body @ ''}'' # rest) = delete_loop rb False 0 rest"
proof (induction body arbitrary: d)
  case Nil
  let ?d1 = "if HasPrefix (TrimSpace ''}'') rb then 0 else d"
  have "?d1 - 1 \<le> 0" using Nil.prems(1) by simp
  then have "delete_loop rb True d (''}'' # rest) = delete_loop rb False (?d1 - 1) rest"
    by (simp add: delete_loop.simps(2) Count_def)
  then show ?case using delete_loop_count_irrelevant [of rb "?d1 - 1" rest 0] by simp
next
  case (Cons b body)
  let ?d1 = "if HasPrefix (TrimSpace b) rb then 0 else d"
  have nb: "CHR ''{'' \<notin> set b" "CHR ''}'' \<notin> set b" using Cons.prems(2) by auto
  have "delete_loop rb True d (b # body @ ''}'' # rest) = delete_loop rb True ?d1 (body @ ''}'' # rest)"
    using nb by (simp add: delete_loop.simps(2) Count_notin)
  moreover have "?d1 \<le> 1" using Cons.prems(1) by simp
  ultimately show ?case using Cons.IH [of ?d1] Cons.prems(2) by simp
qed

lemma delete_loop_rendered:
  assumes "matches rb h" and "Count h (CHR ''{'') = 1" and "CHR ''}'' \<notin> set h"
    and "list_all (\<lambda>b. CHR ''{'' \<notin> set b \<and> CHR ''}'' \<notin> set b) body"
  shows "delete_loop rb False d (h # body @ ''}'' # rest) = delete_loop rb False 0 rest"
proof -
  have "delete_loop rb False d (h # body @ ''}'' # rest) = delete_loop rb True 1 (body @ ''}'' # rest)"
    using assms(1,2,3) by (simp add: delete_loop.simps(2) matches_def Count_notin)
  then show ?thesis using delete_loop_skip_plain_body [OF _ assms(4), of 1 rb rest] by simp
qed

lemma rendered_lines:
  assumes "list_all (\<lambda>s. CHR ''{'' \<notin> set s \<and> CHR ''}'' \<notin> set s \<and> NL \<notin> set s)
             [Namespace r, ServiceName r, TargetIP r]"
  shows "\<exists>h body. Split (ToCorefile r) NL = h # body @ [''}''] \<and>
           Count h (CHR ''{'') = 1 \<and> CHR ''}'' \<notin> set h \<and>
           list_all (\<lambda>b. CHR ''{'' \<notin> set b \<and> CHR ''}'' \<notin> set b) body"
proof -
  have f: "CHR ''{'' \<notin> set (GetFullName r)" "CHR ''}'' \<notin> set (GetFullName r)"
    "NL \<notin> set (GetFullName r)"
    using assms by (auto simp add: GetFullName_def)
  consider (fqdn) "IsFullFQDN r" | (svc) "\<not> IsFullFQDN r" "ServiceName r \<noteq> []"
    | (ns) "\<not> IsFullFQDN r" "ServiceName r = []" by blast
  then show ?thesis
  proof cases
    case fqdn
    let ?h = "GetFullName r @ ''.svc.cluster.local:53 {''"
    let ?body = "[''    forward . '' @ TargetIP r]"
    have "Split (ToCorefile r) NL = ?h # ?body @ [''}'']"
      using fqdn f assms by (simp add: ToCorefile_block Split_block_text)
    moreover have "Count ?h (CHR ''{'') = 1"
      using f by (simp add: Count_append Count_Cons Count_Nil Count_notin)
    moreover have "CHR ''}'' \<notin> set ?h" using f by simp
    moreover have "list_all (\<lambda>b. CHR ''{'' \<notin> set b \<and> CHR ''}'' \<notin> set b) ?body"
      using assms by simp
    ultimately show ?thesis by blast
  next
    case svc
    let ?h = "GetFullName r @ '':53 {''"
    let ?body = "[''    rewrite name exact '' @ GetFullName r @ '' '' @ GetFullName r @ ''.svc.cluster.local. answer auto'',
                  ''    forward . '' @ TargetIP r]"
    have "Split (ToCorefile r) NL = ?h # ?body @ [''}'']"
      using svc f assms by (simp add: ToCorefile_block Split_block_text)
    moreover have "Count ?h (CHR ''{'') = 1"
      using f by (simp add: Count_append Count_Cons Count_Nil Count_notin)
    moreover have "CHR ''}'' \<notin> set ?h" using f by simp
    moreover have "list_all (\<lambda>b. CHR ''{'' \<notin> set b \<and> CHR ''}'' \<notin> set b) ?body"
      using assms f by simp
    ultimately show ?thesis by blast
  next
    case ns
    let ?h = "Namespace r @ '':53 {''"
    let ?body = "[''    rewrite name regex (.*)'' @ [BSL] @ ''.'' @ Namespace r @ '' '' @ Namespace r @ ''.svc.cluster.local. answer auto'',
                  ''    forward . '' @ TargetIP r]"
    have "Split (ToCorefile r) NL = ?h # ?body @ [''}'']"
      using ns f assms by (simp add: ToCorefile_block Split_block_text)
    moreover have "Count ?h (CHR ''{'') = 1"
      using assms by (simp add: Count_append Count_Cons Count_Nil Count_notin)
    moreover have "CHR ''}'' \<notin> set ?h" using assms by simp
    moreover have "list_all (\<lambda>b. CHR ''{'' \<notin> set b \<and> CHR ''}'' \<notin> set b) ?body"
      using assms by simp
    ultimately show ?thesis by blast
  qed
qed

text \<open>
  Claim C4. When no line of the text has a trimmed form that starts with the computed
  prefix \<open>ruleBlock name isFullFQDN\<close>, the transformation returns the text as it was; and
  \<^verbatim>\<open>DeleteForwardRule\<close>, on a cluster whose calls succeed and whose ConfigMap has a data
  map, returns no error (the error type has no "rule not found") after writing that same
  text back.
\<close>

theorem delete_absent_rule:
  assumes "list_all (\<lambda>l. \<not> matches (ruleBlock name isFullFQDN) l) (Split corefile NL)"
    and "corefile_of k = corefile"
    and "cm_data k = Some m"
    and "list_all (\<lambda>b. b) (outcomes k)"
  shows "delete_text name isFullFQDN corefile = corefile \<and>
         DeleteForwardRule k name isFullFQDN =
           (None, k\<lparr>outcomes := tl (tl (tl (tl (tl (tl (outcomes k)))))),
                    cm_data := Some (m(''Corefile'' \<mapsto> corefile))\<rparr>)"
proof -
  have "delete_loop (ruleBlock name isFullFQDN) False 0 (Split corefile NL @ []) = Split corefile NL @ []"
    using assms(1) by (subst delete_loop_plain) simp_all
  then have a: "delete_text name isFullFQDN corefile = corefile"
    by (simp add: delete_text_def Join_Split)
  show ?thesis
    using a DeleteForwardRule_ok [OF assms(4,3), of name isFullFQDN] assms(2) by simp
qed

theorem delete_absent_rule_witness:
  "list_all (\<lambda>l. \<not> matches (ruleBlock ''prod'' True) l)
     (Split (Join [''.:53 {'', ''    errors'', ''}''] NL) NL) \<and>
   delete_text ''prod'' True (Join [''.:53 {'', ''    errors'', ''}''] NL)
     = Join [''.:53 {'', ''    errors'', ''}''] NL \<and>
   DeleteForwardRule
     \<lparr>cm_data = Some [''Corefile'' \<mapsto> Join [''.:53 {'', ''    errors'', ''}''] NL], outcomes = []\<rparr>
     ''prod'' True
     = (None,
        \<lparr>cm_data = Some [''Corefile'' \<mapsto> Join [''.:53 {'', ''    errors'', ''}''] NL], outcomes = []\<rparr>)"
proof -
  let ?text = "Join [''.:53 {'', ''    errors'', ''}''] NL"
  let ?m = "[''Corefile'' \<mapsto> ?text]"
  let ?k = "\<lparr>cm_data = Some ?m, outcomes = []\<rparr>"
  have h1: "list_all (\<lambda>l. \<not> matches (ruleBlock ''prod'' True) l) (Split ?text NL)"
    by code_simp
  have h2: "corefile_of ?k = ?text" by (simp add: corefile_of_def)
  have h3: "cm_data ?k = Some ?m" by simp
  have h4: "list_all (\<lambda>b. b) (outcomes ?k)" by simp
  show ?thesis
    using h1 delete_absent_rule [OF h1 h2 h3 h4] by simp
qed

text \<open>
  Claim C10. When the lines of the text are any number of runs, each made of lines that
  are not headers for the prefix followed by a block for the prefix (a header and the
  lines through its balancing closing brace), and then lines that are not headers,
  the transformation removes every one of the blocks and keeps all the other lines,
  in order; a successful \<^verbatim>\<open>DeleteForwardRule\<close> stores that text.
\<close>

theorem delete_all_matching_blocks:
  assumes "Split corefile NL = concat (map (\<lambda>(p, b). p @ b) segs) @ post"
    and "list_all (\<lambda>(p, b). list_all (\<lambda>l. \<not> matches (ruleBlock name isFullFQDN) l) p \<and>
                             is_block (ruleBlock name isFullFQDN) b) segs"
    and "list_all (\<lambda>l. \<not> matches (ruleBlock name isFullFQDN) l) post"
  shows "delete_text name isFullFQDN corefile = Join (concat (map fst segs) @ post) NL \<and>
         (corefile_of k = corefile \<and> DeleteForwardRule k name isFullFQDN = (None, k') \<longrightarrow>
            corefile_of k' = Join (concat (map fst segs) @ post) NL)"
proof -
  have a: "delete_text name isFullFQDN corefile = Join (concat (map fst segs) @ post) NL"
    using delete_loop_segments [OF assms(2,3)] assms(1) by (simp add: delete_text_def)
  show ?thesis using a DeleteForwardRule_stored [of k name isFullFQDN k'] by auto
qed

text \<open>Two blocks for \<open>prod:53\<close>, the second with a nested pair of braces; both are removed.\<close>

theorem delete_all_matching_blocks_witness:
  "Split (Join [''.:53 {'', ''    errors'', ''}'',
            ''prod:53 {'', ''    forward . 10.0.0.1'', ''}'',
            ''other:53 {'', ''    forward . 10.0.0.3'', ''}'',
            ''prod:53 {'', ''    template IN A {'', ''        answer x'', ''    }'', ''    forward . 10.0.0.2'', ''}'',
            ''# end''] NL) NL
     = concat (map (\<lambda>(p, b). p @ b)
        [([''.:53 {'', ''    errors'', ''}''],
        [''prod:53 {'', ''    forward . 10.0.0.1'', ''}'']),
       ([''other:53 {'', ''    forward . 10.0.0.3'', ''}''],
        [''prod:53 {'', ''    template IN A {'', ''        answer x'', ''    }'', ''    forward . 10.0.0.2'', ''}''])]) @ [''# end''] \<and>
   list_all (\<lambda>(p, b). list_all (\<lambda>l. \<not> matches (ruleBlock ''prod'' False) l) p \<and>
                        is_block (ruleBlock ''prod'' False) b)
      [([''.:53 {'', ''    errors'', ''}''],
        [''prod:53 {'', ''    forward . 10.0.0.1'', ''}'']),
       ([''other:53 {'', ''    forward . 10.0.0.3'', ''}''],
        [''prod:53 {'', ''    template IN A {'', ''        answer x'', ''    }'', ''    forward . 10.0.0.2'', ''}''])] \<and>
   list_all (\<lambda>l. \<not> matches (ruleBlock ''prod'' False) l) [''# end''] \<and>
   delete_text ''prod'' False (Join [''.:53 {'', ''    errors'', ''}'',
            ''prod:53 {'', ''    forward . 10.0.0.1'', ''}'',
            ''other:53 {'', ''    forward . 10.0.0.3'', ''}'',
            ''prod:53 {'', ''    template IN A {'', ''        answer x'', ''    }'', ''    forward . 10.0.0.2'', ''}'',
            ''# end''] NL)
     = Join [''.:53 {'', ''    errors'', ''}'',
            ''other:53 {'', ''    forward . 10.0.0.3'', ''}'',
            ''# end''] NL \<and>
   DeleteForwardRule \<lparr>cm_data = Some [''Corefile'' \<mapsto> Join [''.:53 {'', ''    errors'', ''}'',
            ''prod:53 {'', ''    forward . 10.0.0.1'', ''}'',
            ''other:53 {'', ''    forward . 10.0.0.3'', ''}'',
            ''prod:53 {'', ''    template IN A {'', ''        answer x'', ''    }'', ''    forward . 10.0.0.2'', ''}'',
            ''# end''] NL], outcomes = []\<rparr> ''prod'' False
     = (None, \<lparr>cm_data = Some [''Corefile'' \<mapsto> Join [''.:53 {'', ''    errors'', ''}'',
            ''other:53 {'', ''    forward . 10.0.0.3'', ''}'',
            ''# end''] NL], outcomes = []\<rparr>) \<and>
   corefile_of \<lparr>cm_data = Some [''Corefile'' \<mapsto> Join [''.:53 {'', ''    errors'', ''}'',
            ''other:53 {'', ''    forward . 10.0.0.3'', ''}'',
            ''# end''] NL], outcomes = []\<rparr> = Join [''.:53 {'', ''    errors'', ''}'',
            ''other:53 {'', ''    forward . 10.0.0.3'', ''}'',
            ''# end''] NL"
proof -
  let ?text = "Join [''.:53 {'', ''    errors'', ''}'',
            ''prod:53 {'', ''    forward . 10.0.0.1'', ''}'',
            ''other:53 {'', ''    forward . 10.0.0.3'', ''}'',
            ''prod:53 {'', ''    template IN A {'', ''        answer x'', ''    }'', ''    forward . 10.0.0.2'', ''}'',
            ''# end''] NL"
  let ?segs = "[([''.:53 {'', ''    errors'', ''}''],
        [''prod:53 {'', ''    forward . 10.0.0.1'', ''}'']),
       ([''other:53 {'', ''    forward . 10.0.0.3'', ''}''],
        [''prod:53 {'', ''    template IN A {'', ''        answer x'', ''    }'', ''    forward . 10.0.0.2'', ''}''])]"
  let ?res = "Join [''.:53 {'', ''    errors'', ''}'',
            ''other:53 {'', ''    forward . 10.0.0.3'', ''}'',
            ''# end''] NL"
  let ?k = "\<lparr>cm_data = Some [''Corefile'' \<mapsto> ?text], outcomes = []\<rparr>"
  let ?k' = "\<lparr>cm_data = Some [''Corefile'' \<mapsto> ?res], outcomes = []\<rparr>"
  have h1: "Split ?text NL = concat (map (\<lambda>(p, b). p @ b) ?segs) @ [''# end'']"
    by code_simp
  have h2: "list_all (\<lambda>(p, b). list_all (\<lambda>l. \<not> matches (ruleBlock ''prod'' False) l) p \<and>
                        is_block (ruleBlock ''prod'' False) b) ?segs"
    by code_simp
  have h3: "list_all (\<lambda>l. \<not> matches (ruleBlock ''prod'' False) l) [''# end'']"
    by code_simp
  have r: "Join (concat (map fst ?segs) @ [''# end'']) NL = ?res"
    by simp
  have c: "corefile_of ?k = ?text" by (simp add: corefile_of_def)
  note main = delete_all_matching_blocks [OF h1 h2 h3, of ?k ?k']
  have t: "delete_text ''prod'' False ?text = ?res"
    using main r by simp
  have d: "DeleteForwardRule ?k ''prod'' False = (None, ?k')"
    using DeleteForwardRule_ok [of ?k "[''Corefile'' \<mapsto> ?text]" "''prod''" False] c t
    by simp
  have "corefile_of ?k' = ?res"
    using main c d r by simp
  then show ?thesis using h1 h2 h3 t d by simp
qed

text \<open>
  Claim C3 as stated fails when "unrelated" is read by the identity of the rules. The
  loop selects a header by \<^verbatim>\<open>strings.HasPrefix\<close>, so deleting the short-form rule \<open>prod\<close>
  (prefix \<open>prod:53\<close>) also takes the block headed \<open>prod:5353 {\<close>, which the parser lists
  as a rule of its own with another full name. In the text below, made of the rendered
  block for \<open>prod\<close> and that other block, nothing is left after the deletion.
\<close>

theorem delete_non_interference_counterexample:
  "Split (Join [''prod:53 {'',
               ''    rewrite name regex (.*)'' @ [BSL] @ ''.prod prod.svc.cluster.local. answer auto'',
               ''    forward . 10.96.0.10'', ''}'',
               ''prod:5353 {'', ''    forward . 10.0.0.9'', ''}''] NL) NL
     = Split (ToCorefile \<lparr>Namespace = ''prod'', ServiceName = [], TargetIP = ''10.96.0.10'', IsFullFQDN = False\<rparr>) NL
       @ [''prod:5353 {'', ''    forward . 10.0.0.9'', ''}''] \<and>
   parseForwardRules (Join [''prod:53 {'',
               ''    rewrite name regex (.*)'' @ [BSL] @ ''.prod prod.svc.cluster.local. answer auto'',
               ''    forward . 10.96.0.10'', ''}'',
               ''prod:5353 {'', ''    forward . 10.0.0.9'', ''}''] NL)
     = [\<lparr>Namespace = ''prod'', ServiceName = [], TargetIP = ''10.96.0.10'', IsFullFQDN = False\<rparr>,
        \<lparr>Namespace = ''prod:5353'', ServiceName = [], TargetIP = ''10.0.0.9'', IsFullFQDN = False\<rparr>] \<and>
   GetFullName \<lparr>Namespace = ''prod:5353'', ServiceName = [], TargetIP = ''10.0.0.9'', IsFullFQDN = False\<rparr>
     \<noteq> GetFullName \<lparr>Namespace = ''prod'', ServiceName = [], TargetIP = ''10.96.0.10'', IsFullFQDN = False\<rparr> \<and>
   ruleBlock ''prod'' False = ''prod:53'' \<and>
   delete_text ''prod'' False (Join [''prod:53 {'',
               ''    rewrite name regex (.*)'' @ [BSL] @ ''.prod prod.svc.cluster.local. answer auto'',
               ''    forward . 10.96.0.10'', ''}'',
               ''prod:5353 {'', ''    forward . 10.0.0.9'', ''}''] NL)
     = []"
  by code_simp

text \<open>
  Claim C3, amended. Let the lines of the text be lines \<open>pre\<close>, then the lines of the
  block rendered from a rule \<open>r\<close>, then lines \<open>post\<close>, where the header of the rendered
  block starts with the target prefix, no line of \<open>pre\<close> or \<open>post\<close> has a trimmed form
  that starts with the target prefix, and the block is well formed: the fields of \<open>r\<close>
  hold no brace and no line feed, so that it is the brace-balanced run of lines of the
  data model. Then the transformation yields exactly \<open>pre\<close> followed by \<open>post\<close>: every
  line outside the block is kept unchanged and in order, and no line of the block
  remains; a successful \<^verbatim>\<open>DeleteForwardRule\<close> stores that text. What happens to other
  lines that start with the prefix is left open here.
\<close>

theorem delete_non_interference:
  assumes "list_all (\<lambda>s. CHR ''{'' \<notin> set s \<and> CHR ''}'' \<notin> set s \<and> NL \<notin> set s)
             [Namespace r, ServiceName r, TargetIP r]"
    and "Split corefile NL = pre @ Split (ToCorefile r) NL @ post"
    and "matches (ruleBlock name isFullFQDN) (hd (Split (ToCorefile r) NL))"
    and "list_all (\<lambda>l. \<not> matches (ruleBlock name isFullFQDN) l) pre"
    and "list_all (\<lambda>l. \<not> matches (ruleBlock name isFullFQDN) l) post"
  shows "delete_text name isFullFQDN corefile = Join (pre @ post) NL \<and>
         (corefile_of k = corefile \<and> DeleteForwardRule k name isFullFQDN = (None, k') \<longrightarrow>
            corefile_of k' = Join (pre @ post) NL)"
proof -
  let ?rb = "ruleBlock name isFullFQDN"
  from rendered_lines [OF assms(1)] obtain h body where
    R: "Split (ToCorefile r) NL = h # body @ [''}'']" and
    h: "Count h (CHR ''{'') = 1" "CHR ''}'' \<notin> set h" and
    body: "list_all (\<lambda>b. CHR ''{'' \<notin> set b \<and> CHR ''}'' \<notin> set b) body"
    by blast
  have m: "matches ?rb h" using assms(3) R by simp
  have "delete_loop ?rb False 0 (pre @ (h # body @ ''}'' # post))
          = pre @ delete_loop ?rb False 0 (h # body @ ''}'' # post)"
    using assms(4) by (rule delete_loop_plain)
  also have "delete_loop ?rb False 0 (h # body @ ''}'' # post) = delete_loop ?rb False 0 post"
    using m h body by (rule delete_loop_rendered)
  also have "delete_loop ?rb False 0 post = post"
    using delete_loop_plain [OF assms(5), of 0 "[]"] by simp
  finally have "delete_loop ?rb False 0 (Split corefile NL) = pre @ post"
    using assms(2) R by simp
  then have a: "delete_text name isFullFQDN corefile = Join (pre @ post) NL"
    by (simp add: delete_text_def)
  show ?thesis using a DeleteForwardRule_stored [of k name isFullFQDN k'] by auto
qed

text \<open>The scenario of the specification: deleting \<open>prod\<close> (FQDN) between the root block and \<open>staging\<close>.\<close>

theorem delete_non_interference_witness:
  "list_all (\<lambda>s. CHR ''{'' \<notin> set s \<and> CHR ''}'' \<notin> set s \<and> NL \<notin> set s)
     [Namespace \<lparr>Namespace = ''prod'', ServiceName = [], TargetIP = ''10.96.0.10'', IsFullFQDN = True\<rparr>, ServiceName \<lparr>Namespace = ''prod'', ServiceName = [], TargetIP = ''10.96.0.10'', IsFullFQDN = True\<rparr>, TargetIP \<lparr>Namespace = ''prod'', ServiceName = [], TargetIP = ''10.96.0.10'', IsFullFQDN = True\<rparr>] \<and>
   Split (Join [''.:53 {'', ''    errors'', ''}'',
         ''prod.svc.cluster.local:53 {'', ''    forward . 10.96.0.10'', ''}'',
         ''staging:53 {'',
         ''    rewrite name regex (.*)'' @ [BSL] @ ''.staging staging.svc.cluster.local. answer auto'',
         ''    forward . 10.96.0.20'', ''}''] NL) NL
     = [''.:53 {'', ''    errors'', ''}''] @ Split (ToCorefile \<lparr>Namespace = ''prod'', ServiceName = [], TargetIP = ''10.96.0.10'', IsFullFQDN = True\<rparr>) NL @
       [''staging:53 {'',
      ''    rewrite name regex (.*)'' @ [BSL] @ ''.staging staging.svc.cluster.local. answer auto'',
      ''    forward . 10.96.0.20'', ''}''] \<and>
   matches (ruleBlock ''prod'' True) (hd (Split (ToCorefile \<lparr>Namespace = ''prod'', ServiceName = [], TargetIP = ''10.96.0.10'', IsFullFQDN = True\<rparr>) NL)) \<and>
   list_all (\<lambda>l. \<not> matches (ruleBlock ''prod'' True) l) [''.:53 {'', ''    errors'', ''}''] \<and>
   list_all (\<lambda>l. \<not> matches (ruleBlock ''prod'' True) l)
     [''staging:53 {'',
      ''    rewrite name regex (.*)'' @ [BSL] @ ''.staging staging.svc.cluster.local. answer auto'',
      ''    forward . 10.96.0.20'', ''}''] \<and>
   delete_text ''prod'' True (Join [''.:53 {'', ''    errors'', ''}'',
         ''prod.svc.cluster.local:53 {'', ''    forward . 10.96.0.10'', ''}'',
         ''staging:53 {'',
         ''    rewrite name regex (.*)'' @ [BSL] @ ''.staging staging.svc.cluster.local. answer auto'',
         ''    forward . 10.96.0.20'', ''}''] NL)
     = Join [''.:53 {'', ''    errors'', ''}'',
         ''staging:53 {'',
         ''    rewrite name regex (.*)'' @ [BSL] @ ''.staging staging.svc.cluster.local. answer auto'',
         ''    forward . 10.96.0.20'', ''}''] NL \<and>
   DeleteForwardRule \<lparr>cm_data = Some [''Corefile'' \<mapsto> Join [''.:53 {'', ''    errors'', ''}'',
         ''prod.svc.cluster.local:53 {'', ''    forward . 10.96.0.10'', ''}'',
         ''staging:53 {'',
         ''    rewrite name regex (.*)'' @ [BSL] @ ''.staging staging.svc.cluster.local. answer auto'',
         ''    forward . 10.96.0.20'', ''}''] NL], outcomes = []\<rparr> ''prod'' True
     = (None, \<lparr>cm_data = Some [''Corefile'' \<mapsto> Join [''.:53 {'', ''    errors'', ''}'',
         ''staging:53 {'',
         ''    rewrite name regex (.*)'' @ [BSL] @ ''.staging staging.svc.cluster.local. answer auto'',
         ''    forward . 10.96.0.20'', ''}''] NL], outcomes = []\<rparr>) \<and>
   corefile_of \<lparr>cm_data = Some [''Corefile'' \<mapsto> Join [''.:53 {'', ''    errors'', ''}'',
         ''staging:53 {'',
         ''    rewrite name regex (.*)'' @ [BSL] @ ''.staging staging.svc.cluster.local. answer auto'',
         ''    forward . 10.96.0.20'', ''}''] NL], outcomes = []\<rparr> = Join [''.:53 {'', ''    errors'', ''}'',
         ''staging:53 {'',
         ''    rewrite name regex (.*)'' @ [BSL] @ ''.staging staging.svc.cluster.local. answer auto'',
         ''    forward . 10.96.0.20'', ''}''] NL"
proof -
  let ?r = "\<lparr>Namespace = ''prod'', ServiceName = [], TargetIP = ''10.96.0.10'', IsFullFQDN = True\<rparr>"
  let ?text = "Join [''.:53 {'', ''    errors'', ''}'',
         ''prod.svc.cluster.local:53 {'', ''    forward . 10.96.0.10'', ''}'',
         ''staging:53 {'',
         ''    rewrite name regex (.*)'' @ [BSL] @ ''.staging staging.svc.cluster.local. answer auto'',
         ''    forward . 10.96.0.20'', ''}''] NL"
  let ?pre = "[''.:53 {'', ''    errors'', ''}'']"
  let ?post = "[''staging:53 {'',
      ''    rewrite name regex (.*)'' @ [BSL] @ ''.staging staging.svc.cluster.local. answer auto'',
      ''    forward . 10.96.0.20'', ''}'']"
  let ?res = "Join [''.:53 {'', ''    errors'', ''}'',
         ''staging:53 {'',
         ''    rewrite name regex (.*)'' @ [BSL] @ ''.staging staging.svc.cluster.local. answer auto'',
         ''    forward . 10.96.0.20'', ''}''] NL"
  let ?k = "\<lparr>cm_data = Some [''Corefile'' \<mapsto> ?text], outcomes = []\<rparr>"
  let ?k' = "\<lparr>cm_data = Some [''Corefile'' \<mapsto> ?res], outcomes = []\<rparr>"
  have h1: "list_all (\<lambda>s. CHR ''{'' \<notin> set s \<and> CHR ''}'' \<notin> set s \<and> NL \<notin> set s)
              [Namespace ?r, ServiceName ?r, TargetIP ?r]"
    by simp
  have h2: "Split ?text NL = ?pre @ Split (ToCorefile ?r) NL @ ?post"
    by code_simp
  have h3: "matches (ruleBlock ''prod'' True) (hd (Split (ToCorefile ?r) NL))"
    by code_simp
  have h4: "list_all (\<lambda>l. \<not> matches (ruleBlock ''prod'' True) l) ?pre"
    by code_simp
  have h5: "list_all (\<lambda>l. \<not> matches (ruleBlock ''prod'' True) l) ?post"
    by code_simp
  have r: "Join (?pre @ ?post) NL = ?res"
    by simp
  have c: "corefile_of ?k = ?text" by (simp add: corefile_of_def)
  note main = delete_non_interference [OF h1 h2 h3 h4 h5, of ?k ?k']
  have t: "delete_text ''prod'' True ?text = ?res"
    using main r by simp
  have d: "DeleteForwardRule ?k ''prod'' True = (None, ?k')"
    using DeleteForwardRule_ok [of ?k "[''Corefile'' \<mapsto> ?text]" "''prod''" True] c t
    by simp
  have "corefile_of ?k' = ?res"
    using main c d r by simp
  then show ?thesis using h1 h2 h3 h4 h5 t d by simp
qed

section \<open>White space in rendered lines\<close>

lemma lead_space_Nil: "lead_space [] = 0"
  by (simp add: lead_space_def space_runes_def)

lemma trail_space_Nil: "trail_space [] = 0"
  by (simp add: trail_space_def space_runes_def HasSuffix_def)

lemma lead_space_other: "c \<notin> set (map hd space_runes) \<Longrightarrow> lead_space (c # cs) = 0"
proof (rule ccontr)
  assume c: "c \<notin> set (map hd space_runes)" and "lead_space (c # cs) \<noteq> 0"
  then obtain e where e: "e \<in> set space_runes" "HasPrefix (c # cs) e"
    using lead_space_pos [of "c # cs"] by auto
  then have "e \<noteq> []" using space_runes_nonempty by simp
  then have "hd e = c" using e(2) by (cases e) auto
  then show False using c e(1) by auto
qed

lemma lead_space_blank: "lead_space (CHR '' '' # cs) = 1"
  by (simp add: lead_space_def space_runes_def)

lemma HasSuffix_last: "HasSuffix s e \<Longrightarrow> e \<noteq> [] \<Longrightarrow> s \<noteq> [] \<and> last s = last e"
  by (auto simp add: HasSuffix_iff)

lemma trail_space_other:
  "s \<noteq> [] \<Longrightarrow> last s \<notin> set (map last space_runes) \<Longrightarrow> trail_space s = 0"
proof (rule ccontr)
  assume c: "last s \<notin> set (map last space_runes)" and "trail_space s \<noteq> 0"
  then obtain e where e: "e \<in> set space_runes" "HasSuffix s e"
    using trail_space_pos [of s] by auto
  then have "last s = last e" using HasSuffix_last space_runes_nonempty by blast
  then show False using c e(1) by auto
qed

lemma has_space_rune:
  assumes "e \<in> set space_runes"
  shows "has_space (e @ b)"
proof -
  have "e \<noteq> []" using assms by (rule space_runes_nonempty)
  then obtain c cs where "e @ b = c # cs" by (cases e) auto
  moreover have "HasPrefix (e @ b) e" by simp
  then have "0 < lead_space (e @ b)" using assms lead_space_pos by blast
  ultimately show ?thesis by simp
qed

lemma has_space_appendI: "has_space b \<Longrightarrow> has_space (a @ b)"
  by (induction a) auto

lemma no_space_lead: "\<not> has_space s \<Longrightarrow> lead_space s = 0"
  by (cases s) (auto simp add: lead_space_Nil)

lemma no_space_trail: "\<not> has_space s \<Longrightarrow> trail_space s = 0"
proof (rule ccontr)
  assume n: "\<not> has_space s" and "trail_space s \<noteq> 0"
  then obtain e where e: "e \<in> set space_runes" "HasSuffix s e"
    using trail_space_pos [of s] by auto
  then obtain t where "s = t @ e @ []" by (auto simp add: HasSuffix_iff)
  then show False using n has_space_appendI has_space_rune e(1) by metis
qed

lemma no_space_NL: "\<not> has_space s \<Longrightarrow> NL \<notin> set s"
proof
  assume n: "\<not> has_space s" and "NL \<in> set s"
  then obtain a b where "s = a @ [NL] @ b" by (auto simp add: in_set_conv_decomp)
  moreover have "[NL] \<in> set space_runes" by (simp add: space_runes_def)
  ultimately show False using n has_space_appendI has_space_rune by metis
qed

lemma HasPrefix_straddle:
  assumes "HasPrefix (u @ b) e" and "u \<noteq> []"
  shows "HasPrefix u e \<or> (b \<noteq> [] \<and> hd b \<in> set (tl e))"
proof -
  from assms(1) obtain t where "u @ b = e @ t" by (auto simp add: HasPrefix_iff)
  then obtain w where "(u = e @ w \<and> w @ b = t) \<or> (u @ w = e \<and> b = w @ t)"
    by (auto simp add: append_eq_append_conv2)
  then show ?thesis
  proof
    assume "u = e @ w \<and> w @ b = t"
    then show ?thesis by (auto simp add: HasPrefix_iff)
  next
    assume w: "u @ w = e \<and> b = w @ t"
    show ?thesis
    proof (cases "w = []")
      case True
      then show ?thesis using w by (auto simp add: HasPrefix_iff)
    next
      case False
      then have "hd b = hd w" "b \<noteq> []" using w by auto
      moreover have "tl e = tl u @ w" using w assms(2) by auto
      ultimately show ?thesis using False by (metis Un_iff hd_in_set set_append)
    qed
  qed
qed

lemma HasSuffix_straddle:
  assumes "HasSuffix (a @ u) e" and "u \<noteq> []"
  shows "HasSuffix u e \<or> (a \<noteq> [] \<and> last a \<in> set (butlast e))"
proof -
  from assms(1) obtain t where "a @ u = t @ e" by (auto simp add: HasSuffix_iff)
  then obtain w where "(a = t @ w \<and> w @ u = e) \<or> (a @ w = t \<and> u = w @ e)"
    by (auto simp add: append_eq_append_conv2)
  then show ?thesis
  proof
    assume "a @ w = t \<and> u = w @ e"
    then show ?thesis by (auto simp add: HasSuffix_iff)
  next
    assume w: "a = t @ w \<and> w @ u = e"
    show ?thesis
    proof (cases "w = []")
      case True
      then show ?thesis using w by (auto simp add: HasSuffix_iff)
    next
      case False
      then have "last a = last w" "a \<noteq> []" using w by auto
      moreover have "butlast e = w @ butlast u" using w assms(2) by (auto simp add: butlast_append)
      ultimately show ?thesis using False by (metis Un_iff last_in_set set_append)
    qed
  qed
qed

lemma lead_space_append:
  assumes "u \<noteq> []" and "lead_space u = 0"
    and "b = [] \<or> hd b \<notin> set (concat (map tl space_runes))"
  shows "lead_space (u @ b) = 0"
proof (rule ccontr)
  assume "lead_space (u @ b) \<noteq> 0"
  then obtain e where e: "e \<in> set space_runes" "HasPrefix (u @ b) e"
    using lead_space_pos [of "u @ b"] by auto
  from HasPrefix_straddle [OF e(2) assms(1)] show False
  proof
    assume "HasPrefix u e"
    then show False using e(1) assms(2) lead_space_pos [of u] by auto
  next
    assume "b \<noteq> [] \<and> hd b \<in> set (tl e)"
    then show False using assms(3) e(1) by auto
  qed
qed

lemma trail_space_append:
  assumes "u \<noteq> []" and "trail_space u = 0"
    and "a = [] \<or> last a \<notin> set (concat (map butlast space_runes))"
  shows "trail_space (a @ u) = 0"
proof (rule ccontr)
  assume "trail_space (a @ u) \<noteq> 0"
  then obtain e where e: "e \<in> set space_runes" "HasSuffix (a @ u) e"
    using trail_space_pos [of "a @ u"] by auto
  from HasSuffix_straddle [OF e(2) assms(1)] show False
  proof
    assume "HasSuffix u e"
    then show False using e(1) assms(2) trail_space_pos [of u] by auto
  next
    assume "a \<noteq> [] \<and> last a \<in> set (butlast e)"
    then show False using assms(3) e(1) by auto
  qed
qed

lemma TrimSpace_id: "lead_space s = 0 \<Longrightarrow> trail_space s = 0 \<Longrightarrow> TrimSpace s = s"
  by (simp add: TrimSpace_def trim_left_id trim_right_id)

lemma TrimSpace_indent:
  assumes "lead_space x = 0" and "trail_space x = 0"
  shows "TrimSpace (''    '' @ x) = x"
proof -
  have "trim_left (''    '' @ x) = trim_left (''   '' @ x)"
    using trim_left_step [of "''    '' @ x"] by (simp add: lead_space_blank)
  also have "\<dots> = trim_left (''  '' @ x)"
    using trim_left_step [of "''   '' @ x"] by (simp add: lead_space_blank)
  also have "\<dots> = trim_left ('' '' @ x)"
    using trim_left_step [of "''  '' @ x"] by (simp add: lead_space_blank)
  also have "\<dots> = trim_left x"
    using trim_left_step [of "'' '' @ x"] by (simp add: lead_space_blank)
  also have "\<dots> = x" using assms(1) by (rule trim_left_id)
  finally show ?thesis using assms(2) by (simp add: TrimSpace_def trim_right_id)
qed

lemma fields_from_no_space: "\<not> has_space s \<Longrightarrow> fields_from (Some cur) s = [cur @ s]"
  by (induction s arbitrary: cur) auto

lemma Fields_forward:
  assumes "ip \<noteq> []" and "\<not> has_space ip"
  shows "Fields (''forward . '' @ ip) = [''forward'', ''.'', ip]"
proof -
  obtain c cs where ip: "ip = c # cs" using assms(1) by (cases ip) auto
  have l: "lead_space (c # cs) = 0" using assms(2) ip by simp
  have "\<not> has_space cs" using assms(2) ip by simp
  then have "fields_from (Some [c]) cs = [c # cs]" using fields_from_no_space [of cs "[c]"] by simp
  then have "fields_from None ip = [ip]" using l ip by simp
  then show ?thesis
    by (simp add: Fields_def lead_space_other lead_space_blank space_runes_def)
qed

section \<open>Round trip: parsing a rendered block\<close>

lemma SplitN2_dot_free: "c \<notin> set s \<Longrightarrow> SplitN2 s c = [s]"
  by (simp add: SplitN2_def)

lemma SplitN2_first:
  "c \<notin> set a \<Longrightarrow> SplitN2 (a @ c # b) c = [a, b]"
proof -
  assume a: "c \<notin> set a"
  then have "takeWhile (\<lambda>x. x \<noteq> c) (a @ c # b) = a"
    by (induction a) auto
  moreover have "dropWhile (\<lambda>x. x \<noteq> c) (a @ c # b) = c # b"
    using a by (induction a) auto
  ultimately show ?thesis by (simp add: SplitN2_def)
qed

lemma HasSuffix_Count:
  "HasSuffix s p \<Longrightarrow> Count p c \<le> Count s c"
  by (auto simp add: HasSuffix_iff Count_append)

text \<open>The full name of a rule whose names are tokens.\<close>

lemma full_name_facts:
  assumes "Namespace r \<noteq> []" and "CHR ''.'' \<notin> set (Namespace r)" and "\<not> has_space (Namespace r)"
    and "CHR ''.'' \<notin> set (ServiceName r)" and "\<not> has_space (ServiceName r)"
  shows "GetFullName r \<noteq> []"
    and "lead_space (GetFullName r) = 0"
    and "trail_space (GetFullName r) = 0"
    and "NL \<notin> set (GetFullName r)"
    and "\<not> HasSuffix (GetFullName r) ''.svc.cluster.local''"
    and "GetFullName r \<noteq> ''.''"
    and "(let parts = SplitN2 (GetFullName r) (CHR ''.'')
          in if length parts = 2 then (parts ! 0, parts ! 1, b) else ([], parts ! 0, b))
         = (ServiceName r, Namespace r, b)"
proof -
  let ?F = "GetFullName r" and ?ns = "Namespace r" and ?svc = "ServiceName r"
  show "?F \<noteq> []" using assms(1) by (simp add: GetFullName_def)
  show "lead_space ?F = 0"
  proof (cases "?svc = []")
    case True
    then show ?thesis using assms(3) by (simp add: GetFullName_def no_space_lead)
  next
    case False
    have "lead_space (?svc @ (''.'' @ ?ns)) = 0"
      using False no_space_lead [OF assms(5)]
      by (rule lead_space_append) (simp add: space_runes_def)
    then show ?thesis using False by (simp add: GetFullName_def)
  qed
  show "trail_space ?F = 0"
  proof (cases "?svc = []")
    case True
    then show ?thesis using assms(3) by (simp add: GetFullName_def no_space_trail)
  next
    case False
    have "trail_space ((?svc @ ''.'') @ ?ns) = 0"
      using assms(1) no_space_trail [OF assms(3)]
      by (rule trail_space_append) (simp add: space_runes_def)
    then show ?thesis using False by (simp add: GetFullName_def)
  qed
  show "NL \<notin> set ?F"
    using no_space_NL [OF assms(3)] no_space_NL [OF assms(5)] by (simp add: GetFullName_def)
  have dots: "Count ?F (CHR ''.'') \<le> 1"
    using assms(2,4) by (simp add: GetFullName_def Count_append Count_Cons Count_notin)
  show "\<not> HasSuffix ?F ''.svc.cluster.local''"
  proof
    assume "HasSuffix ?F ''.svc.cluster.local''"
    from HasSuffix_Count [OF this, of "CHR ''.''"] dots show False
      by (simp add: Count_Cons Count_Nil)
  qed
  show "?F \<noteq> ''.''" using assms(1,2) by (cases "?svc") (auto simp add: GetFullName_def)
  show "(let parts = SplitN2 ?F (CHR ''.'')
          in if length parts = 2 then (parts ! 0, parts ! 1, b) else ([], parts ! 0, b))
         = (?svc, ?ns, b)"
  proof (cases "?svc = []")
    case True
    then show ?thesis using assms(2) by (simp add: GetFullName_def SplitN2_dot_free)
  next
    case False
    then show ?thesis
      using assms(4) SplitN2_first [of "CHR ''.''" ?svc ?ns]
      by (simp add: GetFullName_def)
  qed
qed

lemma ParseNameInput_full_name:
  assumes "Namespace r \<noteq> []" and "CHR ''.'' \<notin> set (Namespace r)" and "\<not> has_space (Namespace r)"
    and "CHR ''.'' \<notin> set (ServiceName r)" and "\<not> has_space (ServiceName r)"
  shows "ParseNameInput (GetFullName r) = (ServiceName r, Namespace r, False)"
proof -
  note f = full_name_facts [OF assms]
  have "TrimSpace (GetFullName r) = GetFullName r" using f(2,3) by (rule TrimSpace_id)
  then show ?thesis using f(5) f(7) [of False] by (simp add: ParseNameInput_def)
qed


lemma parse_line_candidate:
  assumes "TrimSpace line = t" and "Contains t '':53''" and "HasSuffix t ''{''"
    and "domain_part t = D" and "D \<noteq> []" and "D \<noteq> ''.''" and "D \<noteq> ''cluster.local''"
    and "split_domain D = (svc, ns, fq)" and "ns \<noteq> []"
  shows "parse_line line rest = scan_forward ns svc fq (take 9 rest)"
  using assms by (simp add: parse_line_def Let_def)

text \<open>The header line of a FQDN block.\<close>

lemma parse_line_header_fqdn:
  assumes "Namespace r \<noteq> []" and "CHR ''.'' \<notin> set (Namespace r)" and "\<not> has_space (Namespace r)"
    and "CHR ''.'' \<notin> set (ServiceName r)" and "\<not> has_space (ServiceName r)"
  shows "parse_line (GetFullName r @ ''.svc.cluster.local:53 {'') rest
           = scan_forward (Namespace r) (ServiceName r) True (take 9 rest)"
proof -
  let ?F = "GetFullName r"
  let ?h = "?F @ ''.svc.cluster.local:53 {''"
  let ?D = "?F @ ''.svc.cluster.local''"
  note f = full_name_facts [OF assms]
  have lh: "lead_space ?h = 0"
    using f(1,2) by (rule lead_space_append) (simp add: space_runes_def)
  have th: "trail_space ?h = 0"
    by (rule trail_space_other) (simp_all add: space_runes_def)
  have trim: "TrimSpace ?h = ?h" using lh th by (rule TrimSpace_id)
  have c: "Contains ?h '':53''"
    using Contains_appendI [of ?D "'':53''" "'' {''"] by simp
  have s: "HasSuffix ?h ''{''"
    using HasSuffix_append [of "?F @ ''.svc.cluster.local:53 ''" "''{''"] by simp
  have t1: "TrimSuffix ?h ''{'' = ?F @ ''.svc.cluster.local:53 ''"
    using TrimSuffix_append [of "?F @ ''.svc.cluster.local:53 ''" "''{''"] by simp
  have t2: "TrimSuffix (?F @ ''.svc.cluster.local:53 '') '' '' = ?F @ ''.svc.cluster.local:53''"
    using TrimSuffix_append [of "?F @ ''.svc.cluster.local:53''" "'' ''"] by simp
  have t3: "TrimSuffix (?F @ ''.svc.cluster.local:53'') '':53'' = ?D"
    using TrimSuffix_append [of ?D "'':53''"] by simp
  have lD: "lead_space ?D = 0"
    using f(1,2) by (rule lead_space_append) (simp add: space_runes_def)
  have tD: "trail_space ?D = 0"
    by (rule trail_space_other) (simp_all add: space_runes_def)
  have d: "domain_part ?h = ?D"
    using lD tD by (simp add: domain_part_def t1 t2 t3 TrimSpace_id)
  have sD: "HasSuffix ?D ''.svc.cluster.local''" by simp
  have n: "\<not> HasSuffix [] ''.svc.cluster.local''" "\<not> HasSuffix ''.'' ''.svc.cluster.local''"
    "\<not> HasSuffix ''cluster.local'' ''.svc.cluster.local''"
    by (simp_all add: HasSuffix_def)
  have ex: "?D \<noteq> []" "?D \<noteq> ''.''" "?D \<noteq> ''cluster.local''"
    using sD n by metis+
  have tD2: "TrimSuffix ?D ''.svc.cluster.local'' = ?F" by simp
  have sp: "split_domain ?D = (ServiceName r, Namespace r, True)"
    using sD tD2 ParseNameInput_full_name [OF assms] by (simp add: split_domain_def)
  show ?thesis
    using trim c s d ex sp assms(1) by (rule parse_line_candidate)
qed


text \<open>The header line of a short-form block.\<close>

lemma parse_line_header_short:
  assumes "Namespace r \<noteq> []" and "CHR ''.'' \<notin> set (Namespace r)" and "\<not> has_space (Namespace r)"
    and "CHR ''.'' \<notin> set (ServiceName r)" and "\<not> has_space (ServiceName r)"
    and "GetFullName r \<noteq> ''cluster.local''"
  shows "parse_line (GetFullName r @ '':53 {'') rest
           = scan_forward (Namespace r) (ServiceName r) False (take 9 rest)"
proof -
  let ?F = "GetFullName r"
  let ?h = "?F @ '':53 {''"
  note f = full_name_facts [OF assms(1-5)]
  have lh: "lead_space ?h = 0"
    using f(1,2) by (rule lead_space_append) (simp add: space_runes_def)
  have th: "trail_space ?h = 0"
    by (rule trail_space_other) (simp_all add: space_runes_def)
  have trim: "TrimSpace ?h = ?h" using lh th by (rule TrimSpace_id)
  have c: "Contains ?h '':53''"
    using Contains_appendI [of ?F "'':53''" "'' {''"] by simp
  have s: "HasSuffix ?h ''{''"
    using HasSuffix_append [of "?F @ '':53 ''" "''{''"] by simp
  have t1: "TrimSuffix ?h ''{'' = ?F @ '':53 ''"
    using TrimSuffix_append [of "?F @ '':53 ''" "''{''"] by simp
  have t2: "TrimSuffix (?F @ '':53 '') '' '' = ?F @ '':53''"
    using TrimSuffix_append [of "?F @ '':53''" "'' ''"] by simp
  have t3: "TrimSuffix (?F @ '':53'') '':53'' = ?F"
    by (rule TrimSuffix_append)
  have d: "domain_part ?h = ?F"
    using f(2,3) by (simp add: domain_part_def t1 t2 t3 TrimSpace_id)
  have sp: "split_domain ?F = (ServiceName r, Namespace r, False)"
    using f(5) f(7) [of False] by (simp add: split_domain_def)
  show ?thesis
    using trim c s d f(1) f(6) assms(6) sp assms(1) by (rule parse_line_candidate)
qed

lemma parse_line_not_candidate:
  "TrimSpace line = t \<Longrightarrow> \<not> HasSuffix t ''{'' \<Longrightarrow> \<not> HasSuffix t ''{ '' \<Longrightarrow>
     parse_line line rest = []"
  by (simp add: parse_line_def)

lemma scan_forward_hit:
  "TrimSpace l = x \<Longrightarrow> HasPrefix x ''forward .'' \<Longrightarrow> Fields x = [a, b, ip] \<Longrightarrow>
     scan_forward ns svc fq (l # ls)
       = [\<lparr>Namespace = ns, ServiceName = svc, TargetIP = ip, IsFullFQDN = fq\<rparr>]"
  by simp

lemma scan_forward_pass:
  "TrimSpace l = x \<Longrightarrow> \<not> HasPrefix x ''forward .'' \<Longrightarrow> CHR ''}'' \<notin> set x \<Longrightarrow>
     scan_forward ns svc fq (l # ls) = scan_forward ns svc fq ls"
  by simp

lemma TrimSpace_brace: "TrimSpace ''}'' = ''}''"
  by (rule TrimSpace_id) (simp_all add: lead_space_other trail_space_other space_runes_def)

lemma parse_line_last: "parse_line l [] = []"
  using parse_line_shape [of l "[]"] by auto

lemma parse_line_before_brace: "parse_line l [''}''] = []"
  using parse_line_shape [of l "[''}'']"] by (auto simp add: TrimSpace_brace)

text \<open>The \<open>forward\<close> line of a rendered block.\<close>

lemma TrimSpace_forward:
  assumes "ip \<noteq> []" and "\<not> has_space ip"
  shows "TrimSpace (''    forward . '' @ ip) = ''forward . '' @ ip"
proof -
  have l: "lead_space (''forward . '' @ ip) = 0"
    by (simp add: lead_space_other space_runes_def)
  have "trail_space (''forward . '' @ ip) = 0"
    using assms(1) no_space_trail [OF assms(2)]
    by (rule trail_space_append) (simp add: space_runes_def)
  then show ?thesis using TrimSpace_indent [OF l] by simp
qed

lemma scan_forward_rendered:
  assumes "ip \<noteq> []" and "\<not> has_space ip"
  shows "scan_forward ns svc fq ((''    forward . '' @ ip) # ls)
           = [\<lparr>Namespace = ns, ServiceName = svc, TargetIP = ip, IsFullFQDN = fq\<rparr>]"
proof -
  have p: "HasPrefix (''forward . '' @ ip) ''forward .''" by simp
  show ?thesis
    using TrimSpace_forward [OF assms] p Fields_forward [OF assms] by (rule scan_forward_hit)
qed

text \<open>A \<open>rewrite\<close> line of a rendered block: it is no header, and the scan passes over it.\<close>

lemma TrimSpace_rewrite:
  "TrimSpace (''    rewrite name '' @ x @ '' answer auto'') = ''rewrite name '' @ x @ '' answer auto''"
proof -
  have l: "lead_space (''rewrite name '' @ x @ '' answer auto'') = 0"
    by (simp add: lead_space_other space_runes_def)
  have "trail_space ((''rewrite name '' @ x @ '' answer aut'') @ ''o'') = 0"
    by (rule trail_space_other) (simp_all add: space_runes_def)
  then have "trail_space (''rewrite name '' @ x @ '' answer auto'') = 0" by simp
  then show ?thesis using TrimSpace_indent [OF l] by simp
qed

lemma rewrite_no_header:
  "parse_line (''    rewrite name '' @ x @ '' answer auto'') rest = []"
proof -
  let ?t = "''rewrite name '' @ x @ '' answer auto''"
  have last: "last ?t = CHR ''o''" by simp
  have a: "\<not> HasSuffix ?t ''{''"
    using HasSuffix_last [of ?t "''{''"] last by auto
  have b: "\<not> HasSuffix ?t ''{ ''"
    using HasSuffix_last [of ?t "''{ ''"] last by auto
  show ?thesis using TrimSpace_rewrite a b by (rule parse_line_not_candidate)
qed

lemma scan_forward_rewrite:
  assumes "CHR ''}'' \<notin> set x"
  shows "scan_forward ns svc fq ((''    rewrite name '' @ x @ '' answer auto'') # ls)
           = scan_forward ns svc fq ls"
proof -
  let ?t = "''rewrite name '' @ x @ '' answer auto''"
  have a: "\<not> HasPrefix ?t ''forward .''" by simp
  have b: "CHR ''}'' \<notin> set ?t" using assms by simp
  show ?thesis using TrimSpace_rewrite a b by (rule scan_forward_pass)
qed


lemma rule_eq:
  "Namespace r = n \<Longrightarrow> ServiceName r = s \<Longrightarrow> TargetIP r = t \<Longrightarrow> IsFullFQDN r = f \<Longrightarrow>
     \<lparr>Namespace = n, ServiceName = s, TargetIP = t, IsFullFQDN = f\<rparr> = r"
  by (cases r) simp

text \<open>
  Claim C1 as stated fails. The short-form rule with service name \<open>cluster\<close> and namespace
  \<open>local\<close> renders the header \<open>cluster.local:53 {\<close>, whose domain part the parser skips as
  a main zone; and a short-form rule with a closing brace in its name renders a
  \<open>rewrite\<close> line that holds the brace, at which the scan for the \<open>forward\<close> line stops.
  Both rules satisfy the hypotheses of the claim, and both parse to no rule at all.
\<close>

theorem round_trip_counterexample:
  "Namespace \<lparr>Namespace = ''local'', ServiceName = ''cluster'', TargetIP = ''10.96.0.10'', IsFullFQDN = False\<rparr> \<noteq> [] \<and>
   CHR ''.'' \<notin> set ''local'' \<and> \<not> has_space ''local'' \<and>
   CHR ''.'' \<notin> set ''cluster'' \<and> \<not> has_space ''cluster'' \<and>
   ''10.96.0.10'' \<noteq> [] \<and> \<not> has_space ''10.96.0.10'' \<and>
   parseForwardRules
     (ToCorefile \<lparr>Namespace = ''local'', ServiceName = ''cluster'', TargetIP = ''10.96.0.10'', IsFullFQDN = False\<rparr>)
     = [] \<and>
   CHR ''.'' \<notin> set ''a}'' \<and> \<not> has_space ''a}'' \<and>
   parseForwardRules
     (ToCorefile \<lparr>Namespace = ''a}'', ServiceName = [], TargetIP = ''10.96.0.10'', IsFullFQDN = False\<rparr>)
     = []"
  by code_simp

text \<open>
  Claim C1, amended. For every rule whose namespace is a non-empty token without dot
  and without white space, whose service name is a token without dot and without white
  space (possibly empty), whose target address is a non-empty token without white
  space, and which, when it is not a FQDN rule, has a full name other than
  \<open>cluster.local\<close> and no closing brace in its names: parsing the text that consists of
  the rendered block alone yields exactly the list of that one rule, all four fields
  equal to the original.
\<close>

theorem round_trip:
  assumes "Namespace r \<noteq> []" and "CHR ''.'' \<notin> set (Namespace r)" and "\<not> has_space (Namespace r)"
    and "CHR ''.'' \<notin> set (ServiceName r)" and "\<not> has_space (ServiceName r)"
    and "TargetIP r \<noteq> []" and "\<not> has_space (TargetIP r)"
    and "\<not> IsFullFQDN r \<longrightarrow>
           GetFullName r \<noteq> ''cluster.local'' \<and> CHR ''}'' \<notin> set (GetFullName r)"
  shows "parseForwardRules (ToCorefile r) = [r]"
proof -
  let ?F = "GetFullName r" and ?ns = "Namespace r" and ?svc = "ServiceName r" and ?ip = "TargetIP r"
  let ?fw = "''    forward . '' @ ?ip"
  note n = assms(1-5)
  note f = full_name_facts [OF n]
  have nl: "NL \<notin> set ?F" "NL \<notin> set ?ip" "NL \<notin> set ?ns"
    using f(4) no_space_NL [OF assms(7)] no_space_NL [OF assms(3)] by simp_all
  have tail: "parse_line ?fw [''}''] = []" "parse_line ''}'' [] = []"
    by (rule parse_line_before_brace, rule parse_line_last)
  show ?thesis
  proof (cases "IsFullFQDN r")
    case True
    let ?h = "?F @ ''.svc.cluster.local:53 {''"
    let ?rule = "\<lparr>Namespace = ?ns, ServiceName = ?svc, TargetIP = ?ip, IsFullFQDN = True\<rparr>"
    have L: "Split (ToCorefile r) NL = [?h, ?fw, ''}'']"
      using True nl by (simp add: ToCorefile_block Split_block_text)
    have "parse_line ?h [?fw, ''}''] = scan_forward ?ns ?svc True (take 9 [?fw, ''}''])"
      using n by (rule parse_line_header_fqdn)
    also have "take 9 [?fw, ''}''] = [?fw, ''}'']" by simp
    also have "scan_forward ?ns ?svc True [?fw, ''}''] = [?rule]"
      using assms(6,7) by (rule scan_forward_rendered)
    finally have A: "parse_line ?h [?fw, ''}''] = [?rule]" .
    have "parseForwardRules (ToCorefile r) = parse_lines [?h, ?fw, ''}'']"
      by (simp only: parseForwardRules_def L)
    also have "\<dots> = parse_line ?h [?fw, ''}''] @ parse_line ?fw [''}''] @ parse_line ''}'' [] @ []"
      by (simp only: parse_lines.simps)
    also have "\<dots> = [?rule]" by (simp only: A tail append_Nil2)
    also have "?rule = r" using True by (intro rule_eq) simp_all
    finally show ?thesis .
  next
    case False
    then have short: "?F \<noteq> ''cluster.local''" "CHR ''}'' \<notin> set ?F" using assms(8) by simp_all
    let ?h = "?F @ '':53 {''"
    let ?rule = "\<lparr>Namespace = ?ns, ServiceName = ?svc, TargetIP = ?ip, IsFullFQDN = False\<rparr>"
    let ?x = "if ?svc \<noteq> [] then ''exact '' @ ?F @ '' '' @ ?F @ ''.svc.cluster.local.''
              else ''regex (.*)'' @ [BSL] @ ''.'' @ ?ns @ '' '' @ ?ns @ ''.svc.cluster.local.''"
    let ?rw = "''    rewrite name '' @ ?x @ '' answer auto''"
    have Fns: "?svc = [] \<Longrightarrow> ?F = ?ns" by (simp add: GetFullName_def)
    have L: "Split (ToCorefile r) NL = [?h, ?rw, ?fw, ''}'']"
      using False nl Fns by (simp add: ToCorefile_block Split_block_text)
    have xb: "CHR ''}'' \<notin> set ?x" using short(2) Fns by auto
    have "parse_line ?h [?rw, ?fw, ''}''] = scan_forward ?ns ?svc False (take 9 [?rw, ?fw, ''}''])"
      using n short(1) by (rule parse_line_header_short)
    also have "take 9 [?rw, ?fw, ''}''] = [?rw, ?fw, ''}'']" by simp
    also have "scan_forward ?ns ?svc False [?rw, ?fw, ''}''] = scan_forward ?ns ?svc False [?fw, ''}'']"
      using xb by (rule scan_forward_rewrite)
    also have "\<dots> = [?rule]"
      using assms(6,7) by (rule scan_forward_rendered)
    finally have A: "parse_line ?h [?rw, ?fw, ''}''] = [?rule]" .
    have B: "parse_line ?rw [?fw, ''}''] = []" by (rule rewrite_no_header)
    have "parseForwardRules (ToCorefile r) = parse_lines [?h, ?rw, ?fw, ''}'']"
      by (simp only: parseForwardRules_def L)
    also have "\<dots> = parse_line ?h [?rw, ?fw, ''}''] @ parse_line ?rw [?fw, ''}''] @
                     parse_line ?fw [''}''] @ parse_line ''}'' [] @ []"
      by (simp only: parse_lines.simps)
    also have "\<dots> = [?rule]" by (simp only: A B tail append_Nil2 append_Nil)
    also have "?rule = r" using False by (intro rule_eq) simp_all
    finally show ?thesis .
  qed
qed

text \<open>A FQDN rule, a short rule with a service name, and a short namespace rule.\<close>

theorem round_trip_witness:
  "parseForwardRules (ToCorefile \<lparr>Namespace = ''db'', ServiceName = ''mysql'', TargetIP = ''10.96.0.10'', IsFullFQDN = True\<rparr>)
     = [\<lparr>Namespace = ''db'', ServiceName = ''mysql'', TargetIP = ''10.96.0.10'', IsFullFQDN = True\<rparr>] \<and>
   parseForwardRules (ToCorefile \<lparr>Namespace = ''db'', ServiceName = ''mysql'', TargetIP = ''10.96.0.10'', IsFullFQDN = False\<rparr>)
     = [\<lparr>Namespace = ''db'', ServiceName = ''mysql'', TargetIP = ''10.96.0.10'', IsFullFQDN = False\<rparr>] \<and>
   parseForwardRules (ToCorefile \<lparr>Namespace = ''staging'', ServiceName = [], TargetIP = ''10.96.0.20'', IsFullFQDN = False\<rparr>)
     = [\<lparr>Namespace = ''staging'', ServiceName = [], TargetIP = ''10.96.0.20'', IsFullFQDN = False\<rparr>]"
proof -
  let ?r0 = "\<lparr>Namespace = ''db'', ServiceName = ''mysql'', TargetIP = ''10.96.0.10'', IsFullFQDN = True\<rparr>"
  have h00: "Namespace ?r0 \<noteq> []" by code_simp
  have h01: "CHR ''.'' \<notin> set (Namespace ?r0)" by code_simp
  have h02: "\<not> has_space (Namespace ?r0)" by code_simp
  have h03: "CHR ''.'' \<notin> set (ServiceName ?r0)" by code_simp
  have h04: "\<not> has_space (ServiceName ?r0)" by code_simp
  have h05: "TargetIP ?r0 \<noteq> []" by code_simp
  have h06: "\<not> has_space (TargetIP ?r0)" by code_simp
  have h07: "\<not> IsFullFQDN ?r0 \<longrightarrow> GetFullName ?r0 \<noteq> ''cluster.local'' \<and> CHR ''}'' \<notin> set (GetFullName ?r0)" by code_simp
  let ?r1 = "\<lparr>Namespace = ''db'', ServiceName = ''mysql'', TargetIP = ''10.96.0.10'', IsFullFQDN = False\<rparr>"
  have h10: "Namespace ?r1 \<noteq> []" by code_simp
  have h11: "CHR ''.'' \<notin> set (Namespace ?r1)" by code_simp
  have h12: "\<not> has_space (Namespace ?r1)" by code_simp
  have h13: "CHR ''.'' \<notin> set (ServiceName ?r1)" by code_simp
  have h14: "\<not> has_space (ServiceName ?r1)" by code_simp
  have h15: "TargetIP ?r1 \<noteq> []" by code_simp
  have h16: "\<not> has_space (TargetIP ?r1)" by code_simp
  have h17: "\<not> IsFullFQDN ?r1 \<longrightarrow> GetFullName ?r1 \<noteq> ''cluster.local'' \<and> CHR ''}'' \<notin> set (GetFullName ?r1)" by code_simp
  let ?r2 = "\<lparr>Namespace = ''staging'', ServiceName = [], TargetIP = ''10.96.0.20'', IsFullFQDN = False\<rparr>"
  have h20: "Namespace ?r2 \<noteq> []" by code_simp
  have h21: "CHR ''.'' \<notin> set (Namespace ?r2)" by code_simp
  have h22: "\<not> has_space (Namespace ?r2)" by code_simp
  have h23: "CHR ''.'' \<notin> set (ServiceName ?r2)" by code_simp
  have h24: "\<not> has_space (ServiceName ?r2)" by code_simp
  have h25: "TargetIP ?r2 \<noteq> []" by code_simp
  have h26: "\<not> has_space (TargetIP ?r2)" by code_simp
  have h27: "\<not> IsFullFQDN ?r2 \<longrightarrow> GetFullName ?r2 \<noteq> ''cluster.local'' \<and> CHR ''}'' \<notin> set (GetFullName ?r2)" by code_simp
  show ?thesis
    using round_trip [OF h00 h01 h02 h03 h04 h05 h06 h07]
      round_trip [OF h10 h11 h12 h13 h14 h15 h16 h17]
      round_trip [OF h20 h21 h22 h23 h24 h25 h26 h27]
    by simp
qed

end
